theory Spec2Isabelle
  imports Main "HOL-Library.Sublist" "HOL-Library.Word"
begin

section \<open>The interleaved forward fixpoint iterator\<close>

text \<open>
  A shallow embedding of \<^verbatim>\<open>core/include/ikos/core/fixpoint/fwd_fixpoint_iterator.hpp\<close>:
  the class \<^verbatim>\<open>InterleavedFwdFixpointIterator\<close> with its two invariant tables, the
  visitor \<^verbatim>\<open>WtoIterator\<close> that computes the fixpoint and the visitor
  \<^verbatim>\<open>WtoProcessor\<close> that hands the result to the sinks.

  The template parameters (graph, abstract value, graph trait) and the virtual methods
  of the iterator are the fields of one record, \<open>analyzer\<close>; the two tables are the
  record \<open>tables\<close>, passed in and returned by every operation that the C++ runs on
  \<^verbatim>\<open>this\<close>.
\<close>

subsection \<open>Weak topological order\<close>

text \<open>
  A component of the order is a vertex or a cycle with a head and a body
  (\<^verbatim>\<open>WtoVertex\<close>, \<^verbatim>\<open>WtoCycle\<close>).
\<close>

datatype 'n wto_component =
    WtoVertex 'n
  | WtoCycle 'n "'n wto_component list"

text \<open>
  Modelled from the spec: the comparison \<^verbatim>\<open>operator>\<close> of \<^verbatim>\<open>WtoNesting\<close>
  (\<^verbatim>\<open>wto.hpp\<close> is not among the sources). A nesting is the sequence of the heads of the
  cycles around a node, outermost first, and \<open>a > b\<close> holds when \<open>b\<close> is a strict prefix
  of \<open>a\<close>.
\<close>

definition nesting_gt :: "'n list \<Rightarrow> 'n list \<Rightarrow> bool" where
  "nesting_gt a b = strict_prefix b a"

subsection \<open>The client: graph, abstract domain, transfer functions, hooks\<close>

type_synonym unsigned = "32 word"

record ('n, 'v) analyzer =
  entry :: 'n
  predecessors :: "'n \<Rightarrow> 'n list"
  wto :: "'n wto_component list"
  nesting :: "'n \<Rightarrow> 'n list"
  bottom :: 'v
  leq :: "'v \<Rightarrow> 'v \<Rightarrow> bool"
  join_with :: "'v \<Rightarrow> 'v \<Rightarrow> 'v"
  join_loop_with :: "'v \<Rightarrow> 'v \<Rightarrow> 'v"
  join_iter_with :: "'v \<Rightarrow> 'v \<Rightarrow> 'v"
  widen_with :: "'v \<Rightarrow> 'v \<Rightarrow> 'v"
  narrow_with :: "'v \<Rightarrow> 'v \<Rightarrow> 'v"
  analyze_node :: "'n \<Rightarrow> 'v \<Rightarrow> 'v"
  analyze_edge :: "'n \<Rightarrow> 'n \<Rightarrow> 'v \<Rightarrow> 'v"
  extrapolate :: "'n \<Rightarrow> unsigned \<Rightarrow> 'v \<Rightarrow> 'v \<Rightarrow> 'v"
  is_increasing_iterations_fixpoint :: "'v \<Rightarrow> 'v \<Rightarrow> bool"
  refine :: "'n \<Rightarrow> unsigned \<Rightarrow> 'v \<Rightarrow> 'v \<Rightarrow> 'v"
  is_decreasing_iterations_fixpoint :: "'v \<Rightarrow> 'v \<Rightarrow> bool"

text \<open>
  The bodies that the class gives to its four virtual hooks. An in-place operation
  \<^verbatim>\<open>before.op_with(after)\<close> is the function \<open>op_with A before after\<close>, whose result is the
  new value of the receiver.
\<close>

definition default_extrapolate ::
  "('n, 'v) analyzer \<Rightarrow> 'n \<Rightarrow> unsigned \<Rightarrow> 'v \<Rightarrow> 'v \<Rightarrow> 'v" where
  "default_extrapolate A head iteration before after =
     (if iteration \<le> 1 then join_iter_with A before after
      else widen_with A before after)"

definition default_is_increasing_iterations_fixpoint ::
  "('n, 'v) analyzer \<Rightarrow> 'v \<Rightarrow> 'v \<Rightarrow> bool" where
  "default_is_increasing_iterations_fixpoint A before after = leq A after before"

definition default_refine ::
  "('n, 'v) analyzer \<Rightarrow> 'n \<Rightarrow> unsigned \<Rightarrow> 'v \<Rightarrow> 'v \<Rightarrow> 'v" where
  "default_refine A head iteration before after = narrow_with A before after"

definition default_is_decreasing_iterations_fixpoint ::
  "('n, 'v) analyzer \<Rightarrow> 'v \<Rightarrow> 'v \<Rightarrow> bool" where
  "default_is_decreasing_iterations_fixpoint A before after = leq A before after"

text \<open>An analyzer that overrides none of the hooks.\<close>

definition default_hooks :: "('n, 'v) analyzer \<Rightarrow> ('n, 'v) analyzer" where
  "default_hooks A =
     A\<lparr>extrapolate := default_extrapolate A,
       is_increasing_iterations_fixpoint := default_is_increasing_iterations_fixpoint A,
       refine := default_refine A,
       is_decreasing_iterations_fixpoint := default_is_decreasing_iterations_fixpoint A\<rparr>"

subsection \<open>Invariant tables\<close>

text \<open>
  \<^verbatim>\<open>_pre\<close> and \<^verbatim>\<open>_post\<close> are hash maps from nodes to abstract values. Nothing iterates
  over them, so a table is a map \<open>'n \<rightharpoonup> 'v\<close>.
\<close>

record ('n, 'v) tables =
  pre_table :: "'n \<rightharpoonup> 'v"
  post_table :: "'n \<rightharpoonup> 'v"

text \<open>\<^verbatim>\<open>set\<close>: assign when the node has an entry, insert otherwise.\<close>

definition set_inv :: "('n \<rightharpoonup> 'v) \<Rightarrow> 'n \<Rightarrow> 'v \<Rightarrow> ('n \<rightharpoonup> 'v)" where
  "set_inv table node new_inv =
     (case table node of
        Some old \<Rightarrow> table(node \<mapsto> new_inv)
      | None \<Rightarrow> table(node \<mapsto> new_inv))"

definition set_pre :: "('n, 'v) tables \<Rightarrow> 'n \<Rightarrow> 'v \<Rightarrow> ('n, 'v) tables" where
  "set_pre st node new_inv = st\<lparr>pre_table := set_inv (pre_table st) node new_inv\<rparr>"

definition set_post :: "('n, 'v) tables \<Rightarrow> 'n \<Rightarrow> 'v \<Rightarrow> ('n, 'v) tables" where
  "set_post st node new_inv = st\<lparr>post_table := set_inv (post_table st) node new_inv\<rparr>"

text \<open>
  \<^verbatim>\<open>get\<close>: the stored value when the node has an entry; otherwise an entry holding bottom
  is inserted and returned. The result is the value read and the table after the read.
\<close>

definition get_inv :: "'v \<Rightarrow> ('n \<rightharpoonup> 'v) \<Rightarrow> 'n \<Rightarrow> 'v \<times> ('n \<rightharpoonup> 'v)" where
  "get_inv bot_value table node =
     (case table node of
        Some v \<Rightarrow> (v, table)
      | None \<Rightarrow> (bot_value, table(node \<mapsto> bot_value)))"

text \<open>The public readers \<^verbatim>\<open>pre(node)\<close> and \<^verbatim>\<open>post(node)\<close>.\<close>

definition get_pre ::
  "('n, 'v) analyzer \<Rightarrow> ('n, 'v) tables \<Rightarrow> 'n \<Rightarrow> 'v \<times> ('n, 'v) tables" where
  "get_pre A st node =
     (let r = get_inv (bottom A) (pre_table st) node
      in (fst r, st\<lparr>pre_table := snd r\<rparr>))"

definition get_post ::
  "('n, 'v) analyzer \<Rightarrow> ('n, 'v) tables \<Rightarrow> 'n \<Rightarrow> 'v \<times> ('n, 'v) tables" where
  "get_post A st node =
     (let r = get_inv (bottom A) (post_table st) node
      in (fst r, st\<lparr>post_table := snd r\<rparr>))"

text \<open>\<^verbatim>\<open>clear\<close>, and the tables of a freshly constructed iterator.\<close>

definition clear :: "('n, 'v) tables \<Rightarrow> ('n, 'v) tables" where
  "clear st = \<lparr>pre_table = Map.empty, post_table = Map.empty\<rparr>"

definition new_tables :: "('n, 'v) tables" where
  "new_tables = \<lparr>pre_table = Map.empty, post_table = Map.empty\<rparr>"

text \<open>
  The logical content of a table: the total map that sends a node to its stored value,
  and to bottom when it has none.
\<close>

definition content :: "'v \<Rightarrow> ('n \<rightharpoonup> 'v) \<Rightarrow> 'n \<Rightarrow> 'v" where
  "content bot_value table node = (case table node of Some v \<Rightarrow> v | None \<Rightarrow> bot_value)"

definition pre_val :: "('n, 'v) analyzer \<Rightarrow> ('n, 'v) tables \<Rightarrow> 'n \<Rightarrow> 'v" where
  "pre_val A st = content (bottom A) (pre_table st)"

definition post_val :: "('n, 'v) analyzer \<Rightarrow> ('n, 'v) tables \<Rightarrow> 'n \<Rightarrow> 'v" where
  "post_val A st = content (bottom A) (post_table st)"

subsection \<open>The iteration driver (\<^verbatim>\<open>WtoIterator\<close>)\<close>

text \<open>
  The loop over the predecessors of a node that appears four times in the visitor:
  \<open>acc\<close> is the value being built, \<open>keep\<close> the test on the predecessor (always true at
  a vertex, the nesting test at a cycle head). Each kept predecessor \<open>pred\<close> contributes
  \<^verbatim>\<open>acc.join_with(analyze_edge(pred, node, post(pred)))\<close>, and \<^verbatim>\<open>post\<close> is the reader above.
\<close>

fun collect ::
  "('n, 'v) analyzer \<Rightarrow> ('n \<Rightarrow> bool) \<Rightarrow> 'n \<Rightarrow> 'n list \<Rightarrow> 'v \<Rightarrow> ('n, 'v) tables
     \<Rightarrow> 'v \<times> ('n, 'v) tables" where
  "collect A keep node [] acc st = (acc, st)"
| "collect A keep node (pred # rest) acc st =
     (if keep pred then
        (let r = get_post A st pred
         in collect A keep node rest
              (join_with A acc (analyze_edge A pred node (fst r))) (snd r))
      else collect A keep node rest acc st)"

text \<open>\<^verbatim>\<open>visit(const WtoVertexT&)\<close>.\<close>

definition visit_vertex ::
  "('n, 'v) analyzer \<Rightarrow> 'n \<Rightarrow> ('n, 'v) tables \<Rightarrow> ('n, 'v) tables" where
  "visit_vertex A node st =
     (let r0 = (if node = entry A then get_pre A st node else (bottom A, st));
          r1 = collect A (\<lambda>pred. True) node (predecessors A node) (fst r0) (snd r0);
          st2 = set_pre (snd r1) node (fst r1)
      in set_post st2 node (analyze_node A node (fst r1)))"

text \<open>
  The two tests of \<^verbatim>\<open>visit(const WtoCycleT&)\<close> on a predecessor of the head:
  \<^verbatim>\<open>!(nesting(pred) > cycle_nesting)\<close> for an incoming edge and
  \<^verbatim>\<open>nesting(pred) > cycle_nesting\<close> for a back edge.
\<close>

definition is_back_edge :: "('n, 'v) analyzer \<Rightarrow> 'n \<Rightarrow> 'n \<Rightarrow> bool" where
  "is_back_edge A head pred = nesting_gt (nesting A pred) (nesting A head)"

definition is_incoming :: "('n, 'v) analyzer \<Rightarrow> 'n \<Rightarrow> 'n \<Rightarrow> bool" where
  "is_incoming A head pred = (\<not> nesting_gt (nesting A pred) (nesting A head))"

text \<open>The first loop of the cycle visit: the value that seeds the iterations.\<close>

definition initial_pre ::
  "('n, 'v) analyzer \<Rightarrow> 'n \<Rightarrow> ('n, 'v) tables \<Rightarrow> 'v \<times> ('n, 'v) tables" where
  "initial_pre A head st =
     collect A (is_incoming A head) head (predecessors A head) (bottom A) st"

text \<open>
  The two loops after the body visit and the \<^verbatim>\<open>join_loop_with\<close> that follows: the
  candidate \<^verbatim>\<open>new_pre\<close>.
\<close>

definition compute_new_pre ::
  "('n, 'v) analyzer \<Rightarrow> 'n \<Rightarrow> ('n, 'v) tables \<Rightarrow> 'v \<times> ('n, 'v) tables" where
  "compute_new_pre A head st =
     (let r_in = collect A (is_incoming A head) head (predecessors A head) (bottom A) st;
          r_back = collect A (is_back_edge A head) head (predecessors A head) (bottom A)
                     (snd r_in)
      in (join_loop_with A (fst r_in) (fst r_back), snd r_back))"

datatype iteration_kind = Increasing | Decreasing

text \<open>
  The end of one pass of the \<^verbatim>\<open>for\<close> loop, from \<^verbatim>\<open>if (kind == Increasing)\<close> on: either
  the loop is left (\<^verbatim>\<open>break\<close>, with the value given to the last \<^verbatim>\<open>set_pre\<close>), or it goes
  on with the kind, the counter (before the \<^verbatim>\<open>++iteration\<close> of the loop header) and the
  \<^verbatim>\<open>pre\<close> of the next pass.
\<close>

datatype 'v pass_end =
    Break 'v
  | Continue iteration_kind unsigned 'v

definition end_of_pass ::
  "('n, 'v) analyzer \<Rightarrow> 'n \<Rightarrow> iteration_kind \<Rightarrow> unsigned \<Rightarrow> 'v \<Rightarrow> 'v \<Rightarrow> 'v pass_end" where
  "end_of_pass A head kind iteration pre0 new_pre =
     (let reached = (kind = Increasing \<and> is_increasing_iterations_fixpoint A pre0 new_pre);
          kind1 = (if reached then Decreasing else kind);
          iteration1 = (if reached then 1 else iteration);
          pre1 = (if kind = Increasing \<and> \<not> reached
                  then extrapolate A head iteration pre0 new_pre else pre0)
      in if kind1 = Decreasing then
           (let new_pre1 = refine A head iteration1 pre1 new_pre
            in if is_decreasing_iterations_fixpoint A pre1 new_pre1 then Break new_pre1
               else Continue Decreasing iteration1 new_pre1)
         else Continue kind1 iteration1 pre1)"

text \<open>
  The visitor. The \<^verbatim>\<open>for (unsigned iteration = 1;; ++iteration)\<close> loop of a cycle has no
  bound, so the model takes fuel: \<open>iterate\<close> spends one unit for each pass of the loop and
  gives what is left to the visit of the body. \<open>None\<close> means that the fuel ran out.
\<close>

function visit ::
    "('n, 'v) analyzer \<Rightarrow> nat \<Rightarrow> 'n wto_component \<Rightarrow> ('n, 'v) tables
       \<Rightarrow> ('n, 'v) tables option"
  and visit_components ::
    "('n, 'v) analyzer \<Rightarrow> nat \<Rightarrow> 'n wto_component list \<Rightarrow> ('n, 'v) tables
       \<Rightarrow> ('n, 'v) tables option"
  and iterate ::
    "('n, 'v) analyzer \<Rightarrow> nat \<Rightarrow> 'n \<Rightarrow> 'n wto_component list \<Rightarrow> iteration_kind
       \<Rightarrow> unsigned \<Rightarrow> 'v \<Rightarrow> ('n, 'v) tables \<Rightarrow> ('n, 'v) tables option" where
  "visit A fuel (WtoVertex node) st = Some (visit_vertex A node st)"
| "visit A fuel (WtoCycle head body) st =
     (let r = initial_pre A head st
      in iterate A fuel head body Increasing 1 (fst r) (snd r))"
| "visit_components A fuel [] st = Some st"
| "visit_components A fuel (c # cs) st =
     (case visit A fuel c st of
        None \<Rightarrow> None
      | Some st' \<Rightarrow> visit_components A fuel cs st')"
| "iterate A 0 head body kind iteration pre0 st = None"
| "iterate A (Suc fuel) head body kind iteration pre0 st =
     (let st1 = set_pre st head pre0;
          st2 = set_post st1 head (analyze_node A head pre0)
      in case visit_components A fuel body st2 of
           None \<Rightarrow> None
         | Some st3 \<Rightarrow>
             (let r = compute_new_pre A head st3
              in case end_of_pass A head kind iteration pre0 (fst r) of
                   Break new_pre \<Rightarrow> Some (set_pre (snd r) head new_pre)
                 | Continue kind' iteration' pre' \<Rightarrow>
                     iterate A fuel head body kind' (iteration' + 1) pre' (snd r)))"
  by pat_completeness auto
termination
  by (relation "inv_image (less_than <*lex*> less_than)
        (\<lambda>x. case x of
           Inl (A, fuel, c, st) \<Rightarrow> (fuel, size c)
         | Inr (Inl (A, fuel, cs, st)) \<Rightarrow> (fuel, size_list size cs)
         | Inr (Inr (A, fuel, head, body, kind, iteration, pre0, st)) \<Rightarrow>
             (fuel, size_list size body))")
     auto

subsection \<open>The post-processor (\<^verbatim>\<open>WtoProcessor\<close>)\<close>

text \<open>
  \<^verbatim>\<open>process_pre\<close> and \<^verbatim>\<open>process_post\<close> are sinks of the client: what the iterator does
  with them is the sequence of its calls, kept here as a list, oldest call first.
\<close>

datatype ('n, 'v) sink_call =
    ProcessPre 'n 'v
  | ProcessPost 'n 'v

definition process_node ::
  "('n, 'v) analyzer \<Rightarrow> 'n \<Rightarrow> ('n, 'v) sink_call list \<times> ('n, 'v) tables
     \<Rightarrow> ('n, 'v) sink_call list \<times> ('n, 'v) tables" where
  "process_node A node x =
     (let r_pre = get_pre A (snd x) node;
          calls1 = fst x @ [ProcessPre node (fst r_pre)];
          r_post = get_post A (snd r_pre) node
      in (calls1 @ [ProcessPost node (fst r_post)], snd r_post))"

fun process ::
    "('n, 'v) analyzer \<Rightarrow> 'n wto_component
       \<Rightarrow> ('n, 'v) sink_call list \<times> ('n, 'v) tables
       \<Rightarrow> ('n, 'v) sink_call list \<times> ('n, 'v) tables"
  and process_components ::
    "('n, 'v) analyzer \<Rightarrow> 'n wto_component list
       \<Rightarrow> ('n, 'v) sink_call list \<times> ('n, 'v) tables
       \<Rightarrow> ('n, 'v) sink_call list \<times> ('n, 'v) tables" where
  "process A (WtoVertex node) x = process_node A node x"
| "process A (WtoCycle head body) x = process_components A body (process_node A head x)"
| "process_components A [] x = x"
| "process_components A (c # cs) x = process_components A cs (process A c x)"

subsection \<open>\<^verbatim>\<open>run\<close>\<close>

text \<open>The first two statements of \<^verbatim>\<open>run\<close>: seed the entry, then accept the iterator.\<close>

definition run_iterator ::
  "('n, 'v) analyzer \<Rightarrow> nat \<Rightarrow> 'v \<Rightarrow> ('n, 'v) tables \<Rightarrow> ('n, 'v) tables option" where
  "run_iterator A fuel init st =
     visit_components A fuel (wto A) (set_pre st (entry A) init)"

text \<open>\<^verbatim>\<open>run\<close>: the calls made to the sinks and the tables it leaves.\<close>

definition run ::
  "('n, 'v) analyzer \<Rightarrow> nat \<Rightarrow> 'v \<Rightarrow> ('n, 'v) tables
     \<Rightarrow> (('n, 'v) sink_call list \<times> ('n, 'v) tables) option" where
  "run A fuel init st =
     (case run_iterator A fuel init st of
        None \<Rightarrow> None
      | Some st' \<Rightarrow> Some (process_components A (wto A) ([], st')))"

subsection \<open>Notions used to state the properties\<close>

text \<open>
  The contributions of the predecessors of a node that pass the test \<open>keep\<close>, in the
  order of the predecessor list, each computed from the post value \<open>post_of\<close> gives.
\<close>

definition contributions ::
  "('n, 'v) analyzer \<Rightarrow> ('n \<Rightarrow> bool) \<Rightarrow> 'n \<Rightarrow> ('n \<Rightarrow> 'v) \<Rightarrow> 'v list" where
  "contributions A keep node post_of =
     map (\<lambda>pred. analyze_edge A pred node (post_of pred))
       (filter keep (predecessors A node))"

text \<open>The join of a list of values, started at \<open>start\<close>, from left to right.\<close>

definition join_all :: "('n, 'v) analyzer \<Rightarrow> 'v \<Rightarrow> 'v list \<Rightarrow> 'v" where
  "join_all A start vs = foldl (join_with A) start vs"

text \<open>The pre value that the four steps of the vertex visit describe.\<close>

definition vertex_pre :: "('n, 'v) analyzer \<Rightarrow> 'n \<Rightarrow> ('n, 'v) tables \<Rightarrow> 'v" where
  "vertex_pre A node st =
     join_all A (if node = entry A then pre_val A st node else bottom A)
       (contributions A (\<lambda>pred. True) node (post_val A st))"

text \<open>The pre and post values of the listed nodes in the tables a visit returned.\<close>

definition tables_at ::
  "('n, 'v) analyzer \<Rightarrow> 'n list \<Rightarrow> ('n, 'v) tables option \<Rightarrow> ('v \<times> 'v) list option" where
  "tables_at A ns r =
     map_option (\<lambda>st. map (\<lambda>n. (pre_val A st n, post_val A st n)) ns) r"

text \<open>The nodes of a component, and of a list of components, in pre-order: a head before its body.\<close>

fun component_nodes :: "'n wto_component \<Rightarrow> 'n list"
  and components_nodes :: "'n wto_component list \<Rightarrow> 'n list" where
  "component_nodes (WtoVertex node) = [node]"
| "component_nodes (WtoCycle head body) = head # components_nodes body"
| "components_nodes [] = []"
| "components_nodes (c # cs) = component_nodes c @ components_nodes cs"

text \<open>The calls that hand the pre and then the post value of each listed node to the sinks.\<close>

definition sink_calls :: "('n \<Rightarrow> 'v) \<Rightarrow> ('n \<Rightarrow> 'v) \<Rightarrow> 'n list \<Rightarrow> ('n, 'v) sink_call list" where
  "sink_calls pre_of post_of ns =
     concat (map (\<lambda>n. [ProcessPre n (pre_of n), ProcessPost n (post_of n)]) ns)"

text \<open>Two pairs of tables with the same logical content.\<close>

definition same_content ::
  "('n, 'v) analyzer \<Rightarrow> ('n, 'v) tables \<Rightarrow> ('n, 'v) tables \<Rightarrow> bool" where
  "same_content A st1 st2 = (pre_val A st1 = pre_val A st2 \<and> post_val A st1 = post_val A st2)"

text \<open>The nodes that the order lists as plain vertices, and those it lists as cycle heads.\<close>

fun component_vertices :: "'n wto_component \<Rightarrow> 'n list"
  and components_vertices :: "'n wto_component list \<Rightarrow> 'n list" where
  "component_vertices (WtoVertex node) = [node]"
| "component_vertices (WtoCycle head body) = components_vertices body"
| "components_vertices [] = []"
| "components_vertices (c # cs) = component_vertices c @ components_vertices cs"

fun component_heads :: "'n wto_component \<Rightarrow> 'n list"
  and components_heads :: "'n wto_component list \<Rightarrow> 'n list" where
  "component_heads (WtoVertex node) = []"
| "component_heads (WtoCycle head body) = head # components_heads body"
| "components_heads [] = []"
| "components_heads (c # cs) = component_heads c @ components_heads cs"

text \<open>
  What the driver leaves at the listed vertices and heads: at a vertex the post is the
  transfer of the stored pre; at a head the post is the transfer of the pre \<open>p\<close> of the
  last pass, and the stored pre is the result of \<open>refine\<close> on \<open>p\<close> that ended the loop.
\<close>

definition post_consistent ::
  "('n, 'v) analyzer \<Rightarrow> ('n, 'v) tables \<Rightarrow> 'n list \<Rightarrow> 'n list \<Rightarrow> bool" where
  "post_consistent A st vertices heads =
     ((\<forall>n \<in> set vertices. post_val A st n = analyze_node A n (pre_val A st n)) \<and>
      (\<forall>h \<in> set heads. \<exists>p i new_pre.
         post_val A st h = analyze_node A h p \<and>
         pre_val A st h = refine A h i p new_pre \<and>
         is_decreasing_iterations_fixpoint A p (pre_val A st h)))"

text \<open>The tables \<open>st'\<close> hold the values of \<open>st\<close> at every node outside \<open>ns\<close>.\<close>

definition unchanged_outside ::
  "('n, 'v) analyzer \<Rightarrow> 'n list \<Rightarrow> ('n, 'v) tables \<Rightarrow> ('n, 'v) tables \<Rightarrow> bool" where
  "unchanged_outside A ns st st' =
     (\<forall>n. n \<notin> set ns \<longrightarrow> pre_val A st' n = pre_val A st n \<and> post_val A st' n = post_val A st n)"

text \<open>The order of the domain, lifted to every value of both tables.\<close>

definition tables_leq ::
  "('n, 'v) analyzer \<Rightarrow> ('n, 'v) tables \<Rightarrow> ('n, 'v) tables \<Rightarrow> bool" where
  "tables_leq A st1 st2 =
     (\<forall>n. leq A (pre_val A st1 n) (pre_val A st2 n) \<and>
          leq A (post_val A st1 n) (post_val A st2 n))"

text \<open>A binary operation that is monotone in both arguments.\<close>

definition mono_binary :: "('v \<Rightarrow> 'v \<Rightarrow> bool) \<Rightarrow> ('v \<Rightarrow> 'v \<Rightarrow> 'v) \<Rightarrow> bool" where
  "mono_binary le f = (\<forall>a a' b b'. le a a' \<longrightarrow> le b b' \<longrightarrow> le (f a b) (f a' b'))"

text \<open>
  A monotone client: the two transfer functions, the two joins that the driver applies
  and the hooks \<open>extrapolate\<close> and \<open>refine\<close> are monotone, and bottom is below itself.
\<close>

definition monotone_client :: "('n, 'v) analyzer \<Rightarrow> bool" where
  "monotone_client A =
     (leq A (bottom A) (bottom A) \<and>
      (\<forall>n a b. leq A a b \<longrightarrow> leq A (analyze_node A n a) (analyze_node A n b)) \<and>
      (\<forall>p n a b. leq A a b \<longrightarrow> leq A (analyze_edge A p n a) (analyze_edge A p n b)) \<and>
      mono_binary (leq A) (join_with A) \<and>
      mono_binary (leq A) (join_loop_with A) \<and>
      (\<forall>h i. mono_binary (leq A) (extrapolate A h i)) \<and>
      (\<forall>h i. mono_binary (leq A) (refine A h i)))"

text \<open>Two ends of a pass of the same shape, with related values.\<close>

fun rel_pass_end :: "('v \<Rightarrow> 'v \<Rightarrow> bool) \<Rightarrow> 'v pass_end \<Rightarrow> 'v pass_end \<Rightarrow> bool" where
  "rel_pass_end le (Break v) (Break w) = le v w"
| "rel_pass_end le (Continue kind i p) (Continue kind' i' p') =
     (kind = kind' \<and> i = i' \<and> le p p')"
| "rel_pass_end le x y = False"

text \<open>
  How a pass of the loop of a cycle ended: with \<^verbatim>\<open>break\<close>, or by going on in the given phase.
\<close>

datatype pass_shape = Stops | Goes iteration_kind

fun shape :: "'v pass_end \<Rightarrow> pass_shape" where
  "shape (Break v) = Stops"
| "shape (Continue kind iteration v) = Goes kind"

text \<open>
  The passes made by the visit of a component: none at a vertex; at a cycle, for each pass
  of its loop in turn, the passes made by the visit of the body and how the pass ended.
\<close>

datatype passes = NoPass | Passes "(passes list \<times> pass_shape) list"

text \<open>
  The visitor, returning with its tables the passes it made. It is \<open>visit\<close>,
  \<open>visit_components\<close> and \<open>iterate\<close> with one more result (lemma \<open>visit_passes_tables\<close>
  below): the tables are those of the visitor.
\<close>

function visit_passes ::
    "('n, 'v) analyzer \<Rightarrow> nat \<Rightarrow> 'n wto_component \<Rightarrow> ('n, 'v) tables
       \<Rightarrow> (passes \<times> ('n, 'v) tables) option"
  and visit_components_passes ::
    "('n, 'v) analyzer \<Rightarrow> nat \<Rightarrow> 'n wto_component list \<Rightarrow> ('n, 'v) tables
       \<Rightarrow> (passes list \<times> ('n, 'v) tables) option"
  and iterate_passes ::
    "('n, 'v) analyzer \<Rightarrow> nat \<Rightarrow> 'n \<Rightarrow> 'n wto_component list \<Rightarrow> iteration_kind
       \<Rightarrow> unsigned \<Rightarrow> 'v \<Rightarrow> ('n, 'v) tables
       \<Rightarrow> ((passes list \<times> pass_shape) list \<times> ('n, 'v) tables) option" where
  "visit_passes A fuel (WtoVertex node) st = Some (NoPass, visit_vertex A node st)"
| "visit_passes A fuel (WtoCycle head body) st =
     (let r = initial_pre A head st
      in map_option (apfst Passes)
           (iterate_passes A fuel head body Increasing 1 (fst r) (snd r)))"
| "visit_components_passes A fuel [] st = Some ([], st)"
| "visit_components_passes A fuel (c # cs) st =
     (case visit_passes A fuel c st of
        None \<Rightarrow> None
      | Some x \<Rightarrow>
          map_option (apfst (Cons (fst x))) (visit_components_passes A fuel cs (snd x)))"
| "iterate_passes A 0 head body kind iteration pre0 st = None"
| "iterate_passes A (Suc fuel) head body kind iteration pre0 st =
     (let st1 = set_pre st head pre0;
          st2 = set_post st1 head (analyze_node A head pre0)
      in case visit_components_passes A fuel body st2 of
           None \<Rightarrow> None
         | Some x \<Rightarrow>
             (let r = compute_new_pre A head (snd x)
              in case end_of_pass A head kind iteration pre0 (fst r) of
                   Break new_pre \<Rightarrow>
                     Some ([(fst x, Stops)], set_pre (snd r) head new_pre)
                 | Continue kind' iteration' pre' \<Rightarrow>
                     map_option (apfst (Cons (fst x, Goes kind')))
                       (iterate_passes A fuel head body kind' (iteration' + 1) pre' (snd r))))"
  by pat_completeness auto
termination
  by (relation "inv_image (less_than <*lex*> less_than)
        (\<lambda>x. case x of
           Inl (A, fuel, c, st) \<Rightarrow> (fuel, size c)
         | Inr (Inl (A, fuel, cs, st)) \<Rightarrow> (fuel, size_list size cs)
         | Inr (Inr (A, fuel, head, body, kind, iteration, pre0, st)) \<Rightarrow>
             (fuel, size_list size body))")
     auto

text \<open>The passes made by \<^verbatim>\<open>run\<close>, one entry for each component of the order.\<close>

definition run_passes ::
  "('n, 'v) analyzer \<Rightarrow> nat \<Rightarrow> 'v \<Rightarrow> ('n, 'v) tables \<Rightarrow> passes list option" where
  "run_passes A fuel init st =
     map_option fst (visit_components_passes A fuel (wto A) (set_pre st (entry A) init))"










text \<open>
  The order of the domain on the post values of the listed nodes.
\<close>

definition posts_leq ::
  "('n, 'v) analyzer \<Rightarrow> 'n list \<Rightarrow> ('n, 'v) tables \<Rightarrow> ('n, 'v) tables \<Rightarrow> bool" where
  "posts_leq A ns st1 st2 = (\<forall>n \<in> set ns. leq A (post_val A st1 n) (post_val A st2 n))"

text \<open>
  The tables at the start of a pass: \<^verbatim>\<open>set_pre(head, pre)\<close>, then
  \<^verbatim>\<open>set_post(head, analyze_node(head, pre))\<close>.
\<close>

definition head_set :: "('n, 'v) analyzer \<Rightarrow> 'n \<Rightarrow> 'v \<Rightarrow> ('n, 'v) tables \<Rightarrow> ('n, 'v) tables" where
  "head_set A h p st = set_post (set_pre st h p) h (analyze_node A h p)"





subsection \<open>Example clients\<close>

text \<open>
  A loop with a guard. The graph is \<open>0 \<rightarrow> 1 \<rightarrow> 2 \<rightarrow> 1\<close> with entry \<open>0\<close>; node \<open>1\<close> heads the
  cycle whose body is node \<open>2\<close>. A value is an upper bound (\<open>0\<close> is bottom, \<open>100\<close> stands for
  no bound); node \<open>2\<close> adds one under the guard \<open>x \<le> 9\<close>. In \<open>guarded_loop_base\<close> the four
  hooks are placeholders, which \<open>default_hooks\<close> replaces by the bodies of the class.
\<close>

definition guarded_loop_base :: "(nat, nat) analyzer" where
  "guarded_loop_base =
     \<lparr>entry = 0,
      predecessors = (\<lambda>n. if n = 1 then [0, 2] else if n = 2 then [1] else []),
      wto = [WtoVertex 0, WtoCycle 1 [WtoVertex 2]],
      nesting = (\<lambda>n. if n = 2 then [1] else []),
      bottom = 0,
      leq = (\<le>),
      join_with = max,
      join_loop_with = max,
      join_iter_with = max,
      widen_with = (\<lambda>a b. if b \<le> a then a else 100),
      narrow_with = (\<lambda>a b. if a = 100 then min a b else a),
      analyze_node = (\<lambda>n x. if n = 2 then (if x = 0 then 0 else min (x + 1) 10) else x),
      analyze_edge = (\<lambda>p n x. x),
      extrapolate = (\<lambda>h i a b. a),
      is_increasing_iterations_fixpoint = (\<lambda>a b. True),
      refine = (\<lambda>h i a b. a),
      is_decreasing_iterations_fixpoint = (\<lambda>a b. True)\<rparr>"

definition guarded_loop :: "(nat, nat) analyzer" where
  "guarded_loop = default_hooks guarded_loop_base"

text \<open>
  The guarded loop with the decreasing test overridden to stop after one narrowing pass.
\<close>

definition guarded_loop_one_narrowing :: "(nat, nat) analyzer" where
  "guarded_loop_one_narrowing =
     guarded_loop\<lparr>is_decreasing_iterations_fixpoint := (\<lambda>before after. True)\<rparr>"

text \<open>
  A graph whose entry heads a cycle: \<open>0 \<rightarrow> 1 \<rightarrow> 0\<close> with entry \<open>0\<close>, head \<open>0\<close> and body \<open>1\<close>.
  Both transfer functions are the identity.
\<close>

definition entry_loop_base :: "(nat, nat) analyzer" where
  "entry_loop_base =
     \<lparr>entry = 0,
      predecessors = (\<lambda>n. if n = 0 then [1] else if n = 1 then [0] else []),
      wto = [WtoCycle 0 [WtoVertex 1]],
      nesting = (\<lambda>n. if n = 1 then [0] else []),
      bottom = 0,
      leq = (\<le>),
      join_with = max,
      join_loop_with = max,
      join_iter_with = max,
      widen_with = (\<lambda>a b. if b \<le> a then a else 100),
      narrow_with = (\<lambda>a b. if a = 100 then min a b else a),
      analyze_node = (\<lambda>n x. x),
      analyze_edge = (\<lambda>p n x. x),
      extrapolate = (\<lambda>h i a b. a),
      is_increasing_iterations_fixpoint = (\<lambda>a b. True),
      refine = (\<lambda>h i a b. a),
      is_decreasing_iterations_fixpoint = (\<lambda>a b. True)\<rparr>"

definition entry_loop :: "(nat, nat) analyzer" where
  "entry_loop = default_hooks entry_loop_base"

text \<open>
  A loop whose widening jumps to \<open>100\<close>: the graph of the guarded loop, node \<open>2\<close> adds one up
  to \<open>3\<close>, \<open>widen\<close> is constant and \<open>narrow\<close> returns its first argument. Every operation is
  monotone.
\<close>

definition widening_loop_base :: "(nat, nat) analyzer" where
  "widening_loop_base =
     \<lparr>entry = 0,
      predecessors = (\<lambda>n. if n = 1 then [0, 2] else if n = 2 then [1] else []),
      wto = [WtoVertex 0, WtoCycle 1 [WtoVertex 2]],
      nesting = (\<lambda>n. if n = 2 then [1] else []),
      bottom = 0,
      leq = (\<le>),
      join_with = max,
      join_loop_with = max,
      join_iter_with = max,
      widen_with = (\<lambda>a b. 100),
      narrow_with = (\<lambda>a b. a),
      analyze_node = (\<lambda>n x. if n = 2 then min (x + 1) 3 else x),
      analyze_edge = (\<lambda>p n x. x),
      extrapolate = (\<lambda>h i a b. a),
      is_increasing_iterations_fixpoint = (\<lambda>a b. True),
      refine = (\<lambda>h i a b. a),
      is_decreasing_iterations_fixpoint = (\<lambda>a b. True)\<rparr>"

definition widening_loop :: "(nat, nat) analyzer" where
  "widening_loop = default_hooks widening_loop_base"










section \<open>Properties\<close>

subsection \<open>Reading and writing the tables\<close>

lemma content_get_inv: "fst (get_inv b t n) = content b t n"
  by (simp add: get_inv_def content_def split: option.splits)

lemma content_after_get_inv: "content b (snd (get_inv b t n)) = content b t"
  by (rule ext) (simp add: get_inv_def content_def split: option.splits)

lemma content_set_inv: "content b (set_inv t n v) = (content b t)(n := v)"
  by (rule ext) (simp add: set_inv_def content_def split: option.splits)

lemma get_pre_val [simp]: "fst (get_pre A st n) = pre_val A st n"
  by (simp add: get_pre_def pre_val_def content_get_inv Let_def)

lemma get_post_val [simp]: "fst (get_post A st n) = post_val A st n"
  by (simp add: get_post_def post_val_def content_get_inv Let_def)

lemma pre_val_get_pre [simp]: "pre_val A (snd (get_pre A st n)) = pre_val A st"
  by (simp add: get_pre_def pre_val_def content_after_get_inv Let_def)

lemma post_val_get_pre [simp]: "post_val A (snd (get_pre A st n)) = post_val A st"
  by (simp add: get_pre_def post_val_def Let_def)

lemma pre_val_get_post [simp]: "pre_val A (snd (get_post A st n)) = pre_val A st"
  by (simp add: get_post_def pre_val_def Let_def)

lemma post_val_get_post [simp]: "post_val A (snd (get_post A st n)) = post_val A st"
  by (simp add: get_post_def post_val_def content_after_get_inv Let_def)

lemma pre_val_set_pre [simp]: "pre_val A (set_pre st n v) = (pre_val A st)(n := v)"
  by (simp add: set_pre_def pre_val_def content_set_inv)

lemma post_val_set_pre [simp]: "post_val A (set_pre st n v) = post_val A st"
  by (simp add: set_pre_def post_val_def)

lemma pre_val_set_post [simp]: "pre_val A (set_post st n v) = pre_val A st"
  by (simp add: set_post_def pre_val_def)

lemma post_val_set_post [simp]: "post_val A (set_post st n v) = (post_val A st)(n := v)"
  by (simp add: set_post_def post_val_def content_set_inv)

subsection \<open>The loop over the predecessors\<close>

lemma collect_value:
  "fst (collect A keep node ps acc st) =
     foldl (join_with A) acc
       (map (\<lambda>pred. analyze_edge A pred node (post_val A st pred)) (filter keep ps))"
  by (induction ps arbitrary: acc st) (simp_all add: Let_def)

lemma collect_pre_val [simp]:
  "pre_val A (snd (collect A keep node ps acc st)) = pre_val A st"
  by (induction ps arbitrary: acc st) (simp_all add: Let_def)

lemma collect_post_val [simp]:
  "post_val A (snd (collect A keep node ps acc st)) = post_val A st"
  by (induction ps arbitrary: acc st) (simp_all add: Let_def)

lemma collect_join_all:
  "fst (collect A keep node (predecessors A node) acc st) =
     join_all A acc (contributions A keep node (post_val A st))"
  by (simp add: collect_value join_all_def contributions_def)

subsection \<open>The vertex visit\<close>

text \<open>
  C6. The visit of a vertex \<open>n\<close> starts from the stored pre of \<open>n\<close> when \<open>n\<close> is the
  entry and from bottom otherwise, joins in \<open>edge(p, n, post(p))\<close> for every predecessor
  \<open>p\<close> of \<open>n\<close>, stores the result as \<open>pre(n)\<close> and stores \<open>node(n, pre)\<close> as \<open>post(n)\<close>;
  no other entry of the tables changes its value.
\<close>

theorem visit_vertex_sets_pre_and_post:
  "pre_val A (visit_vertex A n st) = (pre_val A st)(n := vertex_pre A n st) \<and>
   post_val A (visit_vertex A n st) =
     (post_val A st)(n := analyze_node A n (vertex_pre A n st)) \<and>
   vertex_pre A n st =
     foldl (join_with A) (if n = entry A then pre_val A st n else bottom A)
       (map (\<lambda>p. analyze_edge A p n (post_val A st p)) (predecessors A n))"
  by (simp add: visit_vertex_def Let_def collect_join_all vertex_pre_def join_all_def
      contributions_def)

subsection \<open>The cycle visit: seed and candidate\<close>

lemma initial_pre_value:
  "fst (initial_pre A h st) =
     join_all A (bottom A) (contributions A (is_incoming A h) h (post_val A st))"
  by (simp add: initial_pre_def collect_join_all)

lemma initial_pre_pre_val [simp]: "pre_val A (snd (initial_pre A h st)) = pre_val A st"
  by (simp add: initial_pre_def)

lemma initial_pre_post_val [simp]: "post_val A (snd (initial_pre A h st)) = post_val A st"
  by (simp add: initial_pre_def)

lemma compute_new_pre_value:
  "fst (compute_new_pre A h st) =
     join_loop_with A
       (join_all A (bottom A) (contributions A (is_incoming A h) h (post_val A st)))
       (join_all A (bottom A) (contributions A (is_back_edge A h) h (post_val A st)))"
  by (simp add: compute_new_pre_def Let_def collect_join_all)

lemma compute_new_pre_pre_val [simp]:
  "pre_val A (snd (compute_new_pre A h st)) = pre_val A st"
  by (simp add: compute_new_pre_def Let_def)

lemma compute_new_pre_post_val [simp]:
  "post_val A (snd (compute_new_pre A h st)) = post_val A st"
  by (simp add: compute_new_pre_def Let_def)

lemma contributions_cong:
  "(\<And>p. p \<in> set (predecessors A h) \<Longrightarrow> keep p \<Longrightarrow> f p = g p) \<Longrightarrow>
   contributions A keep h f = contributions A keep h g"
  by (simp add: contributions_def)

lemma initial_pre_back_edge:
  assumes "is_back_edge A h p"
  shows "fst (initial_pre A h (set_post st p v)) = fst (initial_pre A h st)"
proof -
  have "contributions A (is_incoming A h) h (post_val A (set_post st p v)) =
        contributions A (is_incoming A h) h (post_val A st)"
    using assms by (intro contributions_cong) (auto simp: is_incoming_def is_back_edge_def)
  then show ?thesis by (simp add: initial_pre_value)
qed

text \<open>
  C3. At a cycle with head \<open>h\<close>, a predecessor \<open>p\<close> of \<open>h\<close> is incoming when
  \<open>nesting(p)\<close> is not strictly greater than \<open>nesting(h)\<close> and a back edge when it is.
  The value that seeds the fixpoint loop is the join, started at bottom, of
  \<open>edge(p, h, post(p))\<close> over the incoming predecessors; the post value of a back-edge
  predecessor has no part in it, and computing the seed changes no value of the tables.
\<close>

theorem cycle_seed_joins_incoming_only:
  "is_incoming A h p = (\<not> strict_prefix (nesting A h) (nesting A p)) \<and>
   is_back_edge A h p = strict_prefix (nesting A h) (nesting A p) \<and>
   visit A fuel (WtoCycle h body) st =
     iterate A fuel h body Increasing 1
       (foldl (join_with A) (bottom A)
          (map (\<lambda>p. analyze_edge A p h (post_val A st p))
             (filter (\<lambda>p. \<not> nesting_gt (nesting A p) (nesting A h)) (predecessors A h))))
       (snd (initial_pre A h st)) \<and>
   pre_val A (snd (initial_pre A h st)) = pre_val A st \<and>
   post_val A (snd (initial_pre A h st)) = post_val A st \<and>
   fst (initial_pre A h (if is_back_edge A h p then set_post st p v else st)) =
     fst (initial_pre A h st)"
proof -
  have seed: "fst (initial_pre A h st) =
      foldl (join_with A) (bottom A)
        (map (\<lambda>p. analyze_edge A p h (post_val A st p))
           (filter (\<lambda>p. \<not> nesting_gt (nesting A p) (nesting A h)) (predecessors A h)))"
    by (simp add: initial_pre_value join_all_def contributions_def is_incoming_def [abs_def])
  have unread: "is_back_edge A h p \<Longrightarrow>
      fst (initial_pre A h (set_post st p v)) = fst (initial_pre A h st)"
    by (simp add: initial_pre_back_edge)
  show ?thesis
    using seed unread
    by (simp add: is_incoming_def is_back_edge_def nesting_gt_def Let_def)
qed

text \<open>
  C4. In one pass of the loop of a cycle, \<open>new_in\<close> and \<open>new_back\<close> are the joins of
  \<open>edge(p, h, post(p))\<close> over the incoming and the back-edge predecessors, with
  \<open>post(p)\<close> read from the tables \<open>st3\<close> that the visit of the body of this very pass
  returned, and the candidate is \<open>join_loop(new_in, new_back)\<close>. Reading changes no
  value of the tables.
\<close>

theorem new_pre_read_after_body_visit:
  "iterate A (Suc fuel) h body kind iteration pre0 st =
     (case visit_components A fuel body
             (set_post (set_pre st h pre0) h (analyze_node A h pre0)) of
        None \<Rightarrow> None
      | Some st3 \<Rightarrow>
          (let new_in = foldl (join_with A) (bottom A)
                 (map (\<lambda>p. analyze_edge A p h (post_val A st3 p))
                    (filter (is_incoming A h) (predecessors A h)));
               new_back = foldl (join_with A) (bottom A)
                 (map (\<lambda>p. analyze_edge A p h (post_val A st3 p))
                    (filter (is_back_edge A h) (predecessors A h)));
               new_pre = join_loop_with A new_in new_back;
               st5 = snd (compute_new_pre A h st3)
           in case end_of_pass A h kind iteration pre0 new_pre of
                Break v \<Rightarrow> Some (set_pre st5 h v)
              | Continue kind' iteration' pre' \<Rightarrow>
                  iterate A fuel h body kind' (iteration' + 1) pre' st5)) \<and>
   pre_val A (snd (compute_new_pre A h st3)) = pre_val A st3 \<and>
   post_val A (snd (compute_new_pre A h st3)) = post_val A st3"
  by (simp add: Let_def compute_new_pre_value join_all_def contributions_def
      split: option.splits)

subsection \<open>The phases of a cycle\<close>

lemma end_of_pass_reached:
  "is_increasing_iterations_fixpoint A pre0 new_pre \<Longrightarrow>
   end_of_pass A h Increasing i pre0 new_pre = end_of_pass A h Decreasing 1 pre0 new_pre"
  by (simp add: end_of_pass_def Let_def)

lemma end_of_pass_not_reached:
  "\<not> is_increasing_iterations_fixpoint A pre0 new_pre \<Longrightarrow>
   end_of_pass A h Increasing i pre0 new_pre =
     Continue Increasing i (extrapolate A h i pre0 new_pre)"
  by (simp add: end_of_pass_def Let_def)

lemma end_of_pass_decreasing:
  "end_of_pass A h Decreasing i pre0 new_pre =
     (if is_decreasing_iterations_fixpoint A pre0 (refine A h i pre0 new_pre)
      then Break (refine A h i pre0 new_pre)
      else Continue Decreasing i (refine A h i pre0 new_pre))"
  by (simp add: end_of_pass_def Let_def)

lemma end_of_pass_Break:
  "end_of_pass A h kind i pre0 new_pre = Break v \<Longrightarrow>
   v = refine A h (if kind = Increasing then 1 else i) pre0 new_pre \<and>
   is_decreasing_iterations_fixpoint A pre0 v \<and>
   (kind = Increasing \<longrightarrow> is_increasing_iterations_fixpoint A pre0 new_pre)"
  by (cases kind) (auto simp: end_of_pass_def Let_def split: if_splits)

lemma iterate_ends_with_refine:
  "iterate A fuel h body kind i pre0 st = Some st' \<Longrightarrow>
   \<exists>j p np. pre_val A st' h = refine A h j p np \<and>
     is_decreasing_iterations_fixpoint A p (refine A h j p np)"
proof (induction fuel arbitrary: kind i pre0 st)
  case 0
  then show ?case by simp
next
  case (Suc fuel)
  let ?st2 = "set_post (set_pre st h pre0) h (analyze_node A h pre0)"
  from Suc.prems obtain st3 where st3: "visit_components A fuel body ?st2 = Some st3"
    by (auto simp: Let_def split: option.splits)
  let ?r = "compute_new_pre A h st3"
  show ?case
  proof (cases "end_of_pass A h kind i pre0 (fst ?r)")
    case (Break v)
    with Suc.prems st3 have "st' = set_pre (snd ?r) h v"
      by (simp add: Let_def)
    moreover from end_of_pass_Break [OF Break]
    have "v = refine A h (if kind = Increasing then 1 else i) pre0 (fst ?r) \<and>
      is_decreasing_iterations_fixpoint A pre0 v" by blast
    ultimately show ?thesis by (metis fun_upd_same pre_val_set_pre)
  next
    case (Continue kind' i' pre')
    with Suc.prems st3
    have "iterate A fuel h body kind' (i' + 1) pre' (snd ?r) = Some st'"
      by (simp add: Let_def)
    then show ?thesis by (rule Suc.IH)
  qed
qed

text \<open>
  C5. The end of a pass of the loop of a cycle. In the increasing phase, when
  \<open>is_increasing_iterations_fixpoint(pre, new_pre)\<close> holds, the pass ends as a decreasing
  pass with counter \<open>1\<close> on the same \<open>pre\<close> and \<open>new_pre\<close>: \<open>refine\<close> is applied to them, and the
  outcome does not depend on \<open>extrapolate\<close>; when it does not hold, the pass ends with
  \<open>extrapolate\<close> and never leaves the loop. A decreasing pass applies \<open>refine\<close> and stays
  decreasing. The loop is left only with a result of \<open>refine\<close> that the decreasing test
  accepted, so the pre of the head after the visit of a cycle is such a result.
\<close>

theorem cycle_phase_machine:
  "(is_increasing_iterations_fixpoint A pre0 new_pre \<longrightarrow>
      end_of_pass A h Increasing i pre0 new_pre =
        (if is_decreasing_iterations_fixpoint A pre0 (refine A h 1 pre0 new_pre)
         then Break (refine A h 1 pre0 new_pre)
         else Continue Decreasing 1 (refine A h 1 pre0 new_pre)) \<and>
      end_of_pass (A\<lparr>extrapolate := e\<rparr>) h Increasing i pre0 new_pre =
        end_of_pass A h Increasing i pre0 new_pre) \<and>
   (\<not> is_increasing_iterations_fixpoint A pre0 new_pre \<longrightarrow>
      end_of_pass A h Increasing i pre0 new_pre =
        Continue Increasing i (extrapolate A h i pre0 new_pre)) \<and>
   end_of_pass A h Decreasing i pre0 new_pre =
     (if is_decreasing_iterations_fixpoint A pre0 (refine A h i pre0 new_pre)
      then Break (refine A h i pre0 new_pre)
      else Continue Decreasing i (refine A h i pre0 new_pre)) \<and>
   (end_of_pass A h kind i pre0 new_pre = Break v \<longrightarrow>
      v = refine A h (if kind = Increasing then 1 else i) pre0 new_pre \<and>
      is_decreasing_iterations_fixpoint A pre0 v \<and>
      (kind = Increasing \<longrightarrow> is_increasing_iterations_fixpoint A pre0 new_pre)) \<and>
   (visit A fuel (WtoCycle h body) st = Some st' \<longrightarrow>
      (\<exists>j p np. pre_val A st' h = refine A h j p np \<and>
         is_decreasing_iterations_fixpoint A p (refine A h j p np)))"
proof (intro conjI impI)
  assume "visit A fuel (WtoCycle h body) st = Some st'"
  then show "\<exists>j p np. pre_val A st' h = refine A h j p np \<and>
         is_decreasing_iterations_fixpoint A p (refine A h j p np)"
    by (auto simp: Let_def dest: iterate_ends_with_refine)
next
  assume b: "end_of_pass A h kind i pre0 new_pre = Break v"
  from end_of_pass_Break [OF b]
  show "v = refine A h (if kind = Increasing then 1 else i) pre0 new_pre" by blast
  from end_of_pass_Break [OF b]
  show "is_decreasing_iterations_fixpoint A pre0 v" by blast
  assume "kind = Increasing"
  with end_of_pass_Break [OF b]
  show "is_increasing_iterations_fixpoint A pre0 new_pre" by blast
qed (simp_all add: end_of_pass_def Let_def)

theorem cycle_phase_machine_witness:
  "is_increasing_iterations_fixpoint guarded_loop 100 10 \<and>
   end_of_pass guarded_loop 1 Increasing 3 100 10 = Continue Decreasing 1 10 \<and>
   \<not> is_increasing_iterations_fixpoint guarded_loop 2 3 \<and>
   end_of_pass guarded_loop 1 Increasing 2 2 3 = Continue Increasing 2 100 \<and>
   end_of_pass guarded_loop 1 Decreasing 2 10 10 = Break 10 \<and>
   (\<exists>st'. visit guarded_loop 4 (WtoCycle 1 [WtoVertex 2]) (set_post new_tables 0 1) = Some st' \<and>
      pre_val guarded_loop st' 1 = 10 \<and>
      (\<exists>j p np. pre_val guarded_loop st' 1 = refine guarded_loop 1 j p np \<and>
         is_decreasing_iterations_fixpoint guarded_loop p (refine guarded_loop 1 j p np)))"
proof -
  have reached: "is_increasing_iterations_fixpoint guarded_loop 100 10"
    by code_simp
  have not_reached: "\<not> is_increasing_iterations_fixpoint guarded_loop 2 3"
    by code_simp
  have e1: "end_of_pass guarded_loop 1 Increasing 3 100 10 = Continue Decreasing 1 10"
  proof -
    have r: "refine guarded_loop 1 1 100 10 = 10"
      by code_simp
    have d: "\<not> is_decreasing_iterations_fixpoint guarded_loop 100 10"
      by code_simp
    from reached cycle_phase_machine [where A = guarded_loop and ?pre0.0 = 100
        and new_pre = 10 and h = 1 and i = 3]
    have "end_of_pass guarded_loop 1 Increasing 3 100 10 =
        (if is_decreasing_iterations_fixpoint guarded_loop 100 (refine guarded_loop 1 1 100 10)
         then Break (refine guarded_loop 1 1 100 10)
         else Continue Decreasing 1 (refine guarded_loop 1 1 100 10))"
      by blast
    with r d show ?thesis by simp
  qed
  have e2: "end_of_pass guarded_loop 1 Increasing 2 2 3 = Continue Increasing 2 100"
    by code_simp
  have e3: "end_of_pass guarded_loop 1 Decreasing 2 10 10 = Break 10"
    by code_simp
  have "tables_at guarded_loop [1]
      (visit guarded_loop 4 (WtoCycle 1 [WtoVertex 2]) (set_post new_tables 0 1)) =
        Some [(10, 10)]"
    by code_simp
  then obtain st' where
    v: "visit guarded_loop 4 (WtoCycle 1 [WtoVertex 2]) (set_post new_tables 0 1) = Some st'"
    and p: "pre_val guarded_loop st' 1 = 10"
    by (auto simp: tables_at_def)
  from v cycle_phase_machine [where A = guarded_loop and fuel = 4 and h = 1
      and body = "[WtoVertex 2]" and st = "set_post new_tables 0 1" and st' = st']
  have "\<exists>j p np. pre_val guarded_loop st' 1 = refine guarded_loop 1 j p np \<and>
         is_decreasing_iterations_fixpoint guarded_loop p (refine guarded_loop 1 j p np)"
    by blast
  with reached not_reached e1 e2 e3 v p show ?thesis by blast
qed

subsection \<open>The post-processor\<close>

lemma process_node_calls:
  "fst (process_node A n x) =
     fst x @ [ProcessPre n (pre_val A (snd x) n), ProcessPost n (post_val A (snd x) n)]"
  by (simp add: process_node_def Let_def)

lemma process_node_pre_val [simp]: "pre_val A (snd (process_node A n x)) = pre_val A (snd x)"
  by (simp add: process_node_def Let_def)

lemma process_node_post_val [simp]: "post_val A (snd (process_node A n x)) = post_val A (snd x)"
  by (simp add: process_node_def Let_def)

lemma process_calls:
  "fst (process A c x) =
     fst x @ sink_calls (pre_val A (snd x)) (post_val A (snd x)) (component_nodes c) \<and>
   pre_val A (snd (process A c x)) = pre_val A (snd x) \<and>
   post_val A (snd (process A c x)) = post_val A (snd x)"
  "fst (process_components A cs x) =
     fst x @ sink_calls (pre_val A (snd x)) (post_val A (snd x)) (components_nodes cs) \<and>
   pre_val A (snd (process_components A cs x)) = pre_val A (snd x) \<and>
   post_val A (snd (process_components A cs x)) = post_val A (snd x)"
  by (induction A c x and A cs x rule: process_process_components.induct)
     (simp_all add: sink_calls_def process_node_calls)

lemma components_nodes_concat: "components_nodes cs = concat (map component_nodes cs)"
  by (induction cs) simp_all

text \<open>
  C9. \<open>run\<close> calls the sinks after the iteration driver has returned: the calls are
  \<open>process_pre(n, pre(n))\<close> then \<open>process_post(n, post(n))\<close> for each node \<open>n\<close> of the order,
  taken in pre-order (the head of a cycle before the components of its body, components
  from first to last), with the values of the tables \<open>st1\<close> that the driver left. The
  processor changes no value of the tables.
\<close>

theorem processor_calls_in_wto_order:
  "run A fuel init st =
     (case run_iterator A fuel init st of
        None \<Rightarrow> None
      | Some st1 \<Rightarrow>
          Some (concat (map (\<lambda>n. [ProcessPre n (pre_val A st1 n), ProcessPost n (post_val A st1 n)])
                  (components_nodes (wto A))),
                snd (process_components A (wto A) ([], st1)))) \<and>
   pre_val A (snd (process_components A (wto A) ([], st1))) = pre_val A st1 \<and>
   post_val A (snd (process_components A (wto A) ([], st1))) = post_val A st1 \<and>
   component_nodes (WtoVertex n) = [n] \<and>
   component_nodes (WtoCycle h body) = h # concat (map component_nodes body)"
  using process_calls(2) [of A "wto A"]
  by (auto simp: run_def sink_calls_def prod_eq_iff components_nodes_concat
      split: option.splits)


subsection \<open>Lazy insertion\<close>

lemma same_content_refl [simp]: "same_content A st st"
  by (simp add: same_content_def)

lemma same_content_get_pre: "same_content A (snd (get_pre A st n)) st"
  by (simp add: same_content_def)

lemma same_content_get_post: "same_content A (snd (get_post A st n)) st"
  by (simp add: same_content_def)

lemma same_content_set_pre:
  "same_content A st1 st2 \<Longrightarrow> same_content A (set_pre st1 n v) (set_pre st2 n v)"
  by (simp add: same_content_def)

lemma same_content_set_post:
  "same_content A st1 st2 \<Longrightarrow> same_content A (set_post st1 n v) (set_post st2 n v)"
  by (simp add: same_content_def)

lemma visit_vertex_pre_val:
  "pre_val A (visit_vertex A n st) = (pre_val A st)(n := vertex_pre A n st)"
  by (simp add: visit_vertex_def Let_def collect_join_all vertex_pre_def)

lemma visit_vertex_post_val:
  "post_val A (visit_vertex A n st) =
     (post_val A st)(n := analyze_node A n (vertex_pre A n st))"
  by (simp add: visit_vertex_def Let_def collect_join_all vertex_pre_def)

lemma same_content_visit_vertex:
  assumes "same_content A st1 st2"
  shows "same_content A (visit_vertex A n st1) (visit_vertex A n st2)"
proof -
  from assms have "vertex_pre A n st1 = vertex_pre A n st2"
    by (simp add: vertex_pre_def same_content_def)
  with assms show ?thesis
    by (simp add: same_content_def visit_vertex_pre_val visit_vertex_post_val)
qed

lemma same_content_initial_pre:
  assumes "same_content A st1 st2"
  shows "fst (initial_pre A h st1) = fst (initial_pre A h st2)"
    and "same_content A (snd (initial_pre A h st1)) (snd (initial_pre A h st2))"
  using assms by (simp_all add: same_content_def initial_pre_value)

lemma same_content_compute_new_pre:
  assumes "same_content A st1 st2"
  shows "fst (compute_new_pre A h st1) = fst (compute_new_pre A h st2)"
    and "same_content A (snd (compute_new_pre A h st1)) (snd (compute_new_pre A h st2))"
  using assms by (simp_all add: same_content_def compute_new_pre_value)

lemma same_content_visit:
  "\<forall>st2. same_content A st st2 \<longrightarrow>
     rel_option (same_content A) (visit A fuel c st) (visit A fuel c st2)"
  "\<forall>st2. same_content A st st2 \<longrightarrow>
     rel_option (same_content A) (visit_components A fuel cs st) (visit_components A fuel cs st2)"
  "\<forall>st2. same_content A st st2 \<longrightarrow>
     rel_option (same_content A) (iterate A fuel h body kind i pre0 st)
       (iterate A fuel h body kind i pre0 st2)"
proof (induction A fuel c st and A fuel cs st and A fuel h body kind i pre0 st
    rule: visit_visit_components_iterate.induct)
  case (1 A fuel node st)
  then show ?case by (simp add: same_content_visit_vertex)
next
  case (2 A fuel head body st)
  show ?case
  proof (intro allI impI)
    fix st2 assume s: "same_content A st st2"
    from 2 [OF refl] same_content_initial_pre [OF s, of head]
    show "rel_option (same_content A) (visit A fuel (WtoCycle head body) st)
        (visit A fuel (WtoCycle head body) st2)"
      by (simp add: Let_def)
  qed
next
  case (3 A fuel st)
  then show ?case by simp
next
  case (4 A fuel c cs st)
  show ?case
  proof (intro allI impI)
    fix st2 assume s: "same_content A st st2"
    with 4(1) have r: "rel_option (same_content A) (visit A fuel c st) (visit A fuel c st2)"
      by blast
    show "rel_option (same_content A) (visit_components A fuel (c # cs) st)
        (visit_components A fuel (c # cs) st2)"
    proof (cases "visit A fuel c st")
      case None
      with r show ?thesis by (cases "visit A fuel c st2") simp_all
    next
      case (Some st')
      with r obtain st2' where v2: "visit A fuel c st2 = Some st2'"
        and s': "same_content A st' st2'"
        by (cases "visit A fuel c st2") simp_all
      from 4(2) [OF Some] s' Some v2 show ?thesis by simp
    qed
  qed
next
  case (5 A head body kind iteration pre0 st)
  then show ?case by simp
next
  case (6 A fuel head body kind iteration pre0 st)
  let ?go = "\<lambda>s. set_post (set_pre s head pre0) head (analyze_node A head pre0)"
  show ?case
  proof (intro allI impI)
    fix st2 assume s: "same_content A st st2"
    then have s2: "same_content A (?go st) (?go st2)"
      by (simp add: same_content_set_pre same_content_set_post)
    with 6(1) [OF refl refl]
    have r: "rel_option (same_content A) (visit_components A fuel body (?go st))
        (visit_components A fuel body (?go st2))"
      by blast
    show "rel_option (same_content A) (iterate A (Suc fuel) head body kind iteration pre0 st)
        (iterate A (Suc fuel) head body kind iteration pre0 st2)"
    proof (cases "visit_components A fuel body (?go st)")
      case None
      with r show ?thesis
        by (cases "visit_components A fuel body (?go st2)") (simp_all add: Let_def)
    next
      case (Some st3)
      with r obtain st3' where v2: "visit_components A fuel body (?go st2) = Some st3'"
        and s3: "same_content A st3 st3'"
        by (cases "visit_components A fuel body (?go st2)") simp_all
      note c = same_content_compute_new_pre [OF s3, of head]
      show ?thesis
      proof (cases "end_of_pass A head kind iteration pre0 (fst (compute_new_pre A head st3))")
        case (Break v)
        with Some v2 c show ?thesis
          by (simp add: Let_def same_content_set_pre)
      next
        case (Continue kind' i' pre')
        from 6(2) [OF refl refl Some refl Continue] c(2)
        have "rel_option (same_content A)
            (iterate A fuel head body kind' (i' + 1) pre' (snd (compute_new_pre A head st3)))
            (iterate A fuel head body kind' (i' + 1) pre' (snd (compute_new_pre A head st3')))"
          by blast
        with Some v2 c(1) Continue show ?thesis
          by (simp add: Let_def)
      qed
    qed
  qed
qed


lemma same_content_process_components:
  assumes "same_content A st1 st2"
  shows "fst (process_components A cs (calls, st1)) = fst (process_components A cs (calls, st2))"
    and "same_content A (snd (process_components A cs (calls, st1)))
           (snd (process_components A cs (calls, st2)))"
  using assms process_calls(2) [of A cs "(calls, st1)"] process_calls(2) [of A cs "(calls, st2)"]
  by (simp_all add: same_content_def)

lemma same_content_run:
  assumes "same_content A st1 st2"
  shows "rel_option (\<lambda>x y. fst x = fst y \<and> same_content A (snd x) (snd y))
           (run A fuel init st1) (run A fuel init st2)"
proof -
  from assms have "same_content A (set_pre st1 (entry A) init) (set_pre st2 (entry A) init)"
    by (rule same_content_set_pre)
  with same_content_visit(2)
  have r: "rel_option (same_content A) (run_iterator A fuel init st1)
      (run_iterator A fuel init st2)"
    unfolding run_iterator_def by blast
  show ?thesis
  proof (cases "run_iterator A fuel init st1")
    case None
    with r show ?thesis
      by (cases "run_iterator A fuel init st2") (simp_all add: run_def)
  next
    case (Some r1)
    with r obtain r2 where r2: "run_iterator A fuel init st2 = Some r2"
      and s: "same_content A r1 r2"
      by (cases "run_iterator A fuel init st2") simp_all
    from Some r2 same_content_process_components [OF s, of "wto A" "[]"]
    show ?thesis by (simp add: run_def)
  qed
qed

text \<open>
  C10. A table stands for the total map that sends a node to its stored value, and to
  bottom when it has none. A read returns the value of that map; on a node with no entry
  it returns bottom and inserts an entry holding bottom, which leaves the map as it was.
  Writes and \<open>clear\<close> act on the map alone. \<open>run\<close> started from two pairs of tables
  with the same maps makes the same calls to the sinks and leaves tables with the same
  maps (or runs out of fuel on both), so an earlier read changes nothing that \<open>run\<close> or a
  later read returns.
\<close>

theorem reads_are_pure_on_content:
  "pre_val A st n = (case pre_table st n of Some v \<Rightarrow> v | None \<Rightarrow> bottom A) \<and>
   post_val A st n = (case post_table st n of Some v \<Rightarrow> v | None \<Rightarrow> bottom A) \<and>
   fst (get_pre A st n) = pre_val A st n \<and>
   fst (get_post A st n) = post_val A st n \<and>
   (pre_table st n = None \<longrightarrow>
      fst (get_pre A st n) = bottom A \<and>
      pre_table (snd (get_pre A st n)) = (pre_table st)(n \<mapsto> bottom A)) \<and>
   (post_table st n = None \<longrightarrow>
      fst (get_post A st n) = bottom A \<and>
      post_table (snd (get_post A st n)) = (post_table st)(n \<mapsto> bottom A)) \<and>
   same_content A (snd (get_pre A st n)) st \<and>
   same_content A (snd (get_post A st n)) st \<and>
   pre_val A (set_pre st n v) = (pre_val A st)(n := v) \<and>
   post_val A (set_pre st n v) = post_val A st \<and>
   pre_val A (set_post st n v) = pre_val A st \<and>
   post_val A (set_post st n v) = (post_val A st)(n := v) \<and>
   pre_val A (clear st) = (\<lambda>m. bottom A) \<and>
   post_val A (clear st) = (\<lambda>m. bottom A) \<and>
   (same_content A st1 st2 \<longrightarrow>
      rel_option (\<lambda>x y. fst x = fst y \<and> same_content A (snd x) (snd y))
        (run A fuel init st1) (run A fuel init st2))"
proof -
  have a: "pre_table st n = None \<Longrightarrow>
      pre_table (snd (get_pre A st n)) = (pre_table st)(n \<mapsto> bottom A)"
    by (simp add: get_pre_def get_inv_def Let_def)
  have b: "post_table st n = None \<Longrightarrow>
      post_table (snd (get_post A st n)) = (post_table st)(n \<mapsto> bottom A)"
    by (simp add: get_post_def get_inv_def Let_def)
  have c: "pre_val A (clear st) = (\<lambda>m. bottom A)" "post_val A (clear st) = (\<lambda>m. bottom A)"
    by (simp_all add: clear_def pre_val_def post_val_def content_def fun_eq_iff)
  have d: "pre_val A st n = (case pre_table st n of Some v \<Rightarrow> v | None \<Rightarrow> bottom A)"
    "post_val A st n = (case post_table st n of Some v \<Rightarrow> v | None \<Rightarrow> bottom A)"
    by (simp_all add: pre_val_def post_val_def content_def)
  show ?thesis
    using a b c d same_content_run [of A st1 st2 fuel init]
    by (simp add: same_content_get_pre same_content_get_post)
qed

theorem reads_are_pure_on_content_witness:
  "pre_table (new_tables :: (nat, nat) tables) 3 = None \<and>
   fst (get_pre guarded_loop new_tables 3) = 0 \<and>
   pre_table (snd (get_pre guarded_loop new_tables 3)) 3 = Some 0 \<and>
   same_content guarded_loop (snd (get_pre guarded_loop new_tables 3)) new_tables \<and>
   rel_option (\<lambda>x y. fst x = fst y \<and> same_content guarded_loop (snd x) (snd y))
     (run guarded_loop 4 1 (snd (get_pre guarded_loop new_tables 3)))
     (run guarded_loop 4 1 new_tables) \<and>
   map_option fst (run guarded_loop 4 1 (snd (get_pre guarded_loop new_tables 3))) =
     Some [ProcessPre 0 1, ProcessPost 0 1, ProcessPre 1 10, ProcessPost 1 10,
           ProcessPre 2 10, ProcessPost 2 10]"
proof -
  have none: "pre_table (new_tables :: (nat, nat) tables) 3 = None"
    by (simp add: new_tables_def)
  have bot: "bottom guarded_loop = 0"
    by (simp add: guarded_loop_def guarded_loop_base_def default_hooks_def)
  note t = reads_are_pure_on_content [where A = guarded_loop and st = new_tables and n = 3
      and ?st1.0 = "snd (get_pre guarded_loop new_tables 3)" and ?st2.0 = new_tables
      and fuel = 4 and init = 1]
  from t none bot have r: "fst (get_pre guarded_loop new_tables 3) = 0"
    "pre_table (snd (get_pre guarded_loop new_tables 3)) 3 = Some 0"
    by simp_all
  from t have s: "same_content guarded_loop (snd (get_pre guarded_loop new_tables 3)) new_tables"
    by blast
  with t have rel: "rel_option (\<lambda>x y. fst x = fst y \<and> same_content guarded_loop (snd x) (snd y))
     (run guarded_loop 4 1 (snd (get_pre guarded_loop new_tables 3)))
     (run guarded_loop 4 1 new_tables)"
    by blast
  have calls: "map_option fst (run guarded_loop 4 1 (snd (get_pre guarded_loop new_tables 3))) =
     Some [ProcessPre 0 1, ProcessPost 0 1, ProcessPre 1 10, ProcessPost 1 10,
           ProcessPre 2 10, ProcessPost 2 10]"
    by code_simp
  from none r s rel calls show ?thesis by blast
qed

subsection \<open>What a visit leaves in the tables\<close>

lemma nodes_vertices_heads:
  fixes c :: "'n wto_component" and cs :: "'n wto_component list"
  shows "set (component_nodes c) = set (component_vertices c) \<union> set (component_heads c)"
    and "set (components_nodes cs) =
      set (components_vertices cs) \<union> set (components_heads cs)"
  by (induction c and cs rule: component_nodes_components_nodes.induct) auto

lemma unchanged_outside_refl [simp]: "unchanged_outside A ns st st"
  by (simp add: unchanged_outside_def)

lemma unchanged_outside_trans:
  "unchanged_outside A ns st st' \<Longrightarrow> unchanged_outside A ms st' st'' \<Longrightarrow>
   set ns \<subseteq> set ks \<Longrightarrow> set ms \<subseteq> set ks \<Longrightarrow> unchanged_outside A ks st st''"
  unfolding unchanged_outside_def by (metis subsetD)

lemma unchanged_outside_same_content:
  "same_content A st' st'' \<Longrightarrow> unchanged_outside A ns st st' \<Longrightarrow> unchanged_outside A ns st st''"
  by (simp add: unchanged_outside_def same_content_def)

lemma visit_vertex_unchanged: "unchanged_outside A [n] st (visit_vertex A n st)"
  by (simp add: unchanged_outside_def visit_vertex_pre_val visit_vertex_post_val)

lemma set_head_unchanged:
  "unchanged_outside A [h] st (set_post (set_pre st h v) h w)"
  by (simp add: unchanged_outside_def)

lemma visit_unchanged:
  "\<forall>st'. visit A fuel c st = Some st' \<longrightarrow> unchanged_outside A (component_nodes c) st st'"
  "\<forall>st'. visit_components A fuel cs st = Some st' \<longrightarrow>
     unchanged_outside A (components_nodes cs) st st'"
  "\<forall>st'. iterate A fuel h body kind i pre0 st = Some st' \<longrightarrow>
     unchanged_outside A (h # components_nodes body) st st'"
proof (induction A fuel c st and A fuel cs st and A fuel h body kind i pre0 st
    rule: visit_visit_components_iterate.induct)
  case (1 A fuel node st)
  then show ?case by (simp add: visit_vertex_unchanged)
next
  case (2 A fuel head body st)
  show ?case
  proof (intro allI impI)
    fix st' assume "visit A fuel (WtoCycle head body) st = Some st'"
    with 2 [OF refl]
    have "unchanged_outside A (head # components_nodes body) (snd (initial_pre A head st)) st'"
      by (simp add: Let_def)
    then show "unchanged_outside A (component_nodes (WtoCycle head body)) st st'"
      by (simp add: unchanged_outside_def)
  qed
next
  case (3 A fuel st)
  then show ?case by simp
next
  case (4 A fuel c cs st)
  show ?case
  proof (intro allI impI)
    fix st' assume v: "visit_components A fuel (c # cs) st = Some st'"
    then obtain st1 where v1: "visit A fuel c st = Some st1"
      and v2: "visit_components A fuel cs st1 = Some st'"
      by (auto split: option.splits)
    from 4(1) v1 have "unchanged_outside A (component_nodes c) st st1" by blast
    moreover from 4(2) [OF v1] v2 have "unchanged_outside A (components_nodes cs) st1 st'"
      by blast
    ultimately show "unchanged_outside A (components_nodes (c # cs)) st st'"
      by (rule unchanged_outside_trans) auto
  qed
next
  case (5 A head body kind iteration pre0 st)
  then show ?case by simp
next
  case (6 A fuel head body kind iteration pre0 st)
  let ?st2 = "set_post (set_pre st head pre0) head (analyze_node A head pre0)"
  show ?case
  proof (intro allI impI)
    fix st' assume it: "iterate A (Suc fuel) head body kind iteration pre0 st = Some st'"
    then obtain st3 where v: "visit_components A fuel body ?st2 = Some st3"
      by (auto simp: Let_def split: option.splits)
    let ?r = "compute_new_pre A head st3"
    from 6(1) [OF refl refl] v have "unchanged_outside A (components_nodes body) ?st2 st3"
      by blast
    with set_head_unchanged [of A head st pre0 "analyze_node A head pre0"]
    have u3: "unchanged_outside A (head # components_nodes body) st st3"
      by (rule unchanged_outside_trans) auto
    then have u5: "unchanged_outside A (head # components_nodes body) st (snd ?r)"
      by (simp add: unchanged_outside_def)
    show "unchanged_outside A (head # components_nodes body) st st'"
    proof (cases "end_of_pass A head kind iteration pre0 (fst ?r)")
      case (Break w)
      with it v have "st' = set_pre (snd ?r) head w" by (simp add: Let_def)
      with u5 show ?thesis by (simp add: unchanged_outside_def)
    next
      case (Continue kind' i' pre')
      with it v have "iterate A fuel head body kind' (i' + 1) pre' (snd ?r) = Some st'"
        by (simp add: Let_def)
      with 6(2) [OF refl refl v refl Continue]
      have "unchanged_outside A (head # components_nodes body) (snd ?r) st'" by blast
      with u5 show ?thesis by (rule unchanged_outside_trans) auto
    qed
  qed
qed


lemma post_consistent_append:
  "post_consistent A st (vs @ ws) (hs @ ks) =
     (post_consistent A st vs hs \<and> post_consistent A st ws ks)"
  by (auto simp: post_consistent_def)

lemma post_consistent_agree:
  assumes "post_consistent A st vs hs"
    and "\<forall>n \<in> set vs \<union> set hs. pre_val A st' n = pre_val A st n \<and> post_val A st' n = post_val A st n"
  shows "post_consistent A st' vs hs"
  using assms unfolding post_consistent_def by simp

lemma post_consistent_unchanged:
  assumes "post_consistent A st vs hs"
    and "unchanged_outside A ns st st'"
    and "set ns \<inter> (set vs \<union> set hs) = {}"
  shows "post_consistent A st' vs hs"
proof (rule post_consistent_agree [OF assms(1)])
  from assms(2,3)
  show "\<forall>n \<in> set vs \<union> set hs. pre_val A st' n = pre_val A st n \<and> post_val A st' n = post_val A st n"
    unfolding unchanged_outside_def by blast
qed

lemma visit_post_consistent:
  "\<forall>st'. distinct (component_nodes c) \<longrightarrow> visit A fuel c st = Some st' \<longrightarrow>
     post_consistent A st' (component_vertices c) (component_heads c)"
  "\<forall>st'. distinct (components_nodes cs) \<longrightarrow> visit_components A fuel cs st = Some st' \<longrightarrow>
     post_consistent A st' (components_vertices cs) (components_heads cs)"
  "\<forall>st'. distinct (h # components_nodes body) \<longrightarrow>
     iterate A fuel h body kind i pre0 st = Some st' \<longrightarrow>
     post_consistent A st' (components_vertices body) (h # components_heads body)"
proof (induction A fuel c st and A fuel cs st and A fuel h body kind i pre0 st
    rule: visit_visit_components_iterate.induct)
  case (1 A fuel node st)
  then show ?case
    by (simp add: post_consistent_def visit_vertex_pre_val visit_vertex_post_val)
next
  case (2 A fuel head body st)
  from 2 [OF refl] show ?case by (simp add: Let_def)
next
  case (3 A fuel st)
  then show ?case by (simp add: post_consistent_def)
next
  case (4 A fuel c cs st)
  show ?case
  proof (intro allI impI)
    fix st'
    assume d: "distinct (components_nodes (c # cs))"
      and v: "visit_components A fuel (c # cs) st = Some st'"
    from v obtain st1 where v1: "visit A fuel c st = Some st1"
      and v2: "visit_components A fuel cs st1 = Some st'"
      by (auto split: option.splits)
    from d have dc: "distinct (component_nodes c)" and dcs: "distinct (components_nodes cs)"
      and disj: "set (components_nodes cs) \<inter> set (component_nodes c) = {}"
      by auto
    from 4(1) dc v1 have "post_consistent A st1 (component_vertices c) (component_heads c)"
      by blast
    moreover from visit_unchanged(2) v2
    have "unchanged_outside A (components_nodes cs) st1 st'" by blast
    moreover from disj
    have "set (components_nodes cs) \<inter> (set (component_vertices c) \<union> set (component_heads c)) = {}"
      by (simp add: nodes_vertices_heads(1))
    ultimately have c1: "post_consistent A st' (component_vertices c) (component_heads c)"
      by (rule post_consistent_unchanged)
    from 4(2) [OF v1] dcs v2
    have "post_consistent A st' (components_vertices cs) (components_heads cs)" by blast
    with c1 show "post_consistent A st' (components_vertices (c # cs)) (components_heads (c # cs))"
      by (simp add: post_consistent_append)
  qed
next
  case (5 A head body kind iteration pre0 st)
  then show ?case by simp
next
  case (6 A fuel head body kind iteration pre0 st)
  let ?st2 = "set_post (set_pre st head pre0) head (analyze_node A head pre0)"
  show ?case
  proof (intro allI impI)
    fix st'
    assume d: "distinct (head # components_nodes body)"
      and it: "iterate A (Suc fuel) head body kind iteration pre0 st = Some st'"
    from it obtain st3 where v: "visit_components A fuel body ?st2 = Some st3"
      by (auto simp: Let_def split: option.splits)
    let ?r = "compute_new_pre A head st3"
    show "post_consistent A st' (components_vertices body) (head # components_heads body)"
    proof (cases "end_of_pass A head kind iteration pre0 (fst ?r)")
      case (Break w)
      with it v have st': "st' = set_pre (snd ?r) head w" by (simp add: Let_def)
      from d have hb: "head \<notin> set (components_nodes body)" and db: "distinct (components_nodes body)"
        by simp_all
      from 6(1) [OF refl refl] db v
      have "post_consistent A st3 (components_vertices body) (components_heads body)"
        by blast
      then have body_ok: "post_consistent A st' (components_vertices body) (components_heads body)"
      proof (rule post_consistent_agree)
        from hb st'
        show "\<forall>n \<in> set (components_vertices body) \<union> set (components_heads body).
            pre_val A st' n = pre_val A st3 n \<and> post_val A st' n = post_val A st3 n"
          by (auto simp: nodes_vertices_heads(2))
      qed
      from visit_unchanged(2) v have "unchanged_outside A (components_nodes body) ?st2 st3"
        by blast
      with hb have "post_val A st3 head = post_val A ?st2 head"
        unfolding unchanged_outside_def by blast
      with st' have post_h: "post_val A st' head = analyze_node A head pre0" by simp
      from st' have pre_h: "pre_val A st' head = w" by simp
      from end_of_pass_Break [OF Break]
      have "w = refine A head (if kind = Increasing then 1 else iteration) pre0 (fst ?r) \<and>
        is_decreasing_iterations_fixpoint A pre0 w" by blast
      with post_h pre_h
      have "\<exists>p i new_pre. post_val A st' head = analyze_node A head p \<and>
         pre_val A st' head = refine A head i p new_pre \<and>
         is_decreasing_iterations_fixpoint A p (pre_val A st' head)"
        by metis
      with body_ok show ?thesis by (simp add: post_consistent_def)
    next
      case (Continue kind' i' pre')
      with it v have "iterate A fuel head body kind' (i' + 1) pre' (snd ?r) = Some st'"
        by (simp add: Let_def)
      with 6(2) [OF refl refl v refl Continue] d show ?thesis by blast
    qed
  qed
qed

lemma process_components_same_content:
  "same_content A (snd (process_components A cs (calls, st))) st"
  using process_calls(2) [of A cs "(calls, st)"] by (simp add: same_content_def)

lemma run_SomeD:
  assumes "run A fuel init st = Some (calls, r)"
  shows "\<exists>d. run_iterator A fuel init st = Some d \<and> same_content A r d"
proof (cases "run_iterator A fuel init st")
  case None
  with assms show ?thesis by (simp add: run_def)
next
  case (Some d)
  with assms have "r = snd (process_components A (wto A) ([], d))"
    by (simp add: run_def prod_eq_iff)
  with Some show ?thesis by (simp add: process_components_same_content)
qed

text \<open>
  C1, as amended. When the nodes of the order are pairwise distinct and \<open>run\<close> returns,
  \<open>post(n) = node(n, pre(n))\<close> holds at every node the order lists as a vertex. At a cycle
  head \<open>h\<close> the stored post is \<open>node(h, p)\<close> for the pre \<open>p\<close> of the last pass of the loop,
  while the stored pre is the result of \<open>refine\<close> on \<open>p\<close> that the decreasing test accepted;
  so the equation holds at the heads too whenever that test accepts a result of \<open>refine\<close>
  only if it equals \<open>before\<close>.
\<close>

theorem post_is_node_of_pre_at_vertices:
  assumes "distinct (components_nodes (wto A))"
    and "run A fuel init st = Some (calls, st')"
  shows "(\<forall>n \<in> set (components_vertices (wto A)).
            post_val A st' n = analyze_node A n (pre_val A st' n)) \<and>
         (\<forall>h \<in> set (components_heads (wto A)). \<exists>p i new_pre.
            post_val A st' h = analyze_node A h p \<and>
            pre_val A st' h = refine A h i p new_pre \<and>
            is_decreasing_iterations_fixpoint A p (pre_val A st' h)) \<and>
         ((\<forall>h i a b. is_decreasing_iterations_fixpoint A a (refine A h i a b) \<longrightarrow>
              refine A h i a b = a) \<longrightarrow>
          (\<forall>n \<in> set (components_nodes (wto A)).
             post_val A st' n = analyze_node A n (pre_val A st' n)))"
proof -
  from assms(2) obtain st1 where r: "run_iterator A fuel init st = Some st1"
    and st': "st' = snd (process_components A (wto A) ([], st1))"
    by (auto simp: run_def split: option.splits)
  from r assms(1) visit_post_consistent(2)
  have "post_consistent A st1 (components_vertices (wto A)) (components_heads (wto A))"
    unfolding run_iterator_def by blast
  moreover from st' have "same_content A st' st1"
    by (simp add: process_components_same_content)
  ultimately have c: "post_consistent A st' (components_vertices (wto A)) (components_heads (wto A))"
    by (auto intro: post_consistent_agree simp: same_content_def)
  then have heads: "\<forall>h \<in> set (components_heads (wto A)). \<exists>p i new_pre.
            post_val A st' h = analyze_node A h p \<and>
            pre_val A st' h = refine A h i p new_pre \<and>
            is_decreasing_iterations_fixpoint A p (pre_val A st' h)"
    and verts: "\<forall>n \<in> set (components_vertices (wto A)).
            post_val A st' n = analyze_node A n (pre_val A st' n)"
    by (simp_all add: post_consistent_def)
  have "\<forall>n \<in> set (components_nodes (wto A)).
             post_val A st' n = analyze_node A n (pre_val A st' n)"
    if stop: "\<forall>h i a b. is_decreasing_iterations_fixpoint A a (refine A h i a b) \<longrightarrow>
              refine A h i a b = a"
  proof
    fix n assume "n \<in> set (components_nodes (wto A))"
    then consider "n \<in> set (components_vertices (wto A))" | "n \<in> set (components_heads (wto A))"
      by (auto simp: nodes_vertices_heads(2))
    then show "post_val A st' n = analyze_node A n (pre_val A st' n)"
    proof cases
      case 1
      with verts show ?thesis by blast
    next
      case 2
      with heads obtain p i new_pre where "post_val A st' n = analyze_node A n p"
        and "pre_val A st' n = refine A n i p new_pre"
        and "is_decreasing_iterations_fixpoint A p (pre_val A st' n)"
        by blast
      with stop show ?thesis by metis
    qed
  qed
  with heads verts show ?thesis by blast
qed

text \<open>
  C1 as stated fails at a cycle head. In the guarded loop with one narrowing pass, the
  last pass runs with \<open>pre = 100\<close>, so \<open>post(1) = node(1, 100) = 100\<close>; \<open>refine\<close> then gives
  \<open>10\<close>, which is stored as \<open>pre(1)\<close>, and \<open>node(1, 10) = 10\<close>.
\<close>

theorem post_of_head_counterexample:
  "map_option (\<lambda>r. (pre_val guarded_loop_one_narrowing (snd r) 1,
                      post_val guarded_loop_one_narrowing (snd r) 1,
                      analyze_node guarded_loop_one_narrowing 1
                        (pre_val guarded_loop_one_narrowing (snd r) 1)))
     (run guarded_loop_one_narrowing 3 1 new_tables) = Some (10, 100, 10)"
  by code_simp


lemma guarded_loop_fields:
  "wto guarded_loop = [WtoVertex 0, WtoCycle 1 [WtoVertex 2]]"
  "refine guarded_loop = (\<lambda>h i a b. if a = 100 then min a b else a)"
  "is_decreasing_iterations_fixpoint guarded_loop = (\<lambda>a b. a \<le> b)"
  by (simp_all add: guarded_loop_def guarded_loop_base_def default_hooks_def
      default_refine_def default_is_decreasing_iterations_fixpoint_def fun_eq_iff)

theorem post_is_node_of_pre_at_vertices_witness:
  "distinct (components_nodes (wto guarded_loop)) \<and>
   (\<exists>calls st'. run guarded_loop 4 1 new_tables = Some (calls, st') \<and>
      post_val guarded_loop st' 0 = analyze_node guarded_loop 0 (pre_val guarded_loop st' 0) \<and>
      post_val guarded_loop st' 1 = analyze_node guarded_loop 1 (pre_val guarded_loop st' 1) \<and>
      post_val guarded_loop st' 2 = analyze_node guarded_loop 2 (pre_val guarded_loop st' 2))"
proof -
  have d: "distinct (components_nodes (wto guarded_loop))"
    by (simp add: guarded_loop_fields)
  have "map_option fst (run guarded_loop 4 1 new_tables) =
      Some [ProcessPre 0 1, ProcessPost 0 1, ProcessPre 1 10, ProcessPost 1 10,
            ProcessPre 2 10, ProcessPost 2 10]"
    by code_simp
  then obtain calls st' where r: "run guarded_loop 4 1 new_tables = Some (calls, st')"
    by (cases "run guarded_loop 4 1 (new_tables :: (nat, nat) tables)") auto
  have stop: "\<forall>h i a b.
      is_decreasing_iterations_fixpoint guarded_loop a (refine guarded_loop h i a b) \<longrightarrow>
        refine guarded_loop h i a b = a"
    by (auto simp: guarded_loop_fields)
  from post_is_node_of_pre_at_vertices [OF d r] stop
  have "\<forall>n \<in> set (components_nodes (wto guarded_loop)).
      post_val guarded_loop st' n = analyze_node guarded_loop n (pre_val guarded_loop st' n)"
    by blast
  then have "post_val guarded_loop st' 0 = analyze_node guarded_loop 0 (pre_val guarded_loop st' 0) \<and>
      post_val guarded_loop st' 1 = analyze_node guarded_loop 1 (pre_val guarded_loop st' 1) \<and>
      post_val guarded_loop st' 2 = analyze_node guarded_loop 2 (pre_val guarded_loop st' 2)"
    by (simp add: guarded_loop_fields)
  with d r show ?thesis by blast
qed

subsection \<open>The initial value at the entry\<close>

lemma set_pre_twice: "set_pre (set_pre st n v) n w = set_pre st n w"
  by (cases "pre_table st n") (simp_all add: set_pre_def set_inv_def)

lemma iterate_set_pre_first:
  "iterate A fuel h body kind i p (set_pre st h v) = iterate A fuel h body kind i p st"
  by (cases fuel) (simp_all add: set_pre_twice Let_def)

text \<open>
  The visit of a cycle never reads the stored pre of its head: the first pass overwrites
  it with the seed, which is built from post values alone.
\<close>

lemma cycle_visit_ignores_pre_of_head:
  "rel_option (same_content A) (visit A fuel (WtoCycle h body) (set_pre st h v))
     (visit A fuel (WtoCycle h body) st)"
proof -
  let ?s1 = "snd (initial_pre A h (set_pre st h v))" and ?s2 = "snd (initial_pre A h st)"
  let ?p = "fst (initial_pre A h st)"
  have p: "fst (initial_pre A h (set_pre st h v)) = ?p"
    by (simp add: initial_pre_value)
  have "same_content A (set_pre ?s1 h ?p) (set_pre ?s2 h ?p)"
    by (simp add: same_content_def)
  from same_content_visit(3) [rule_format, OF this, where fuel = fuel and h = h
      and body = body and kind = Increasing and i = 1 and ?pre0.0 = ?p]
  have "rel_option (same_content A) (iterate A fuel h body Increasing 1 ?p ?s1)
      (iterate A fuel h body Increasing 1 ?p ?s2)"
    by (simp add: iterate_set_pre_first)
  with p show ?thesis by (simp add: Let_def)
qed

lemma run_ignores_init_at_entry_cycle:
  assumes "wto A = WtoCycle (entry A) body # rest"
  shows "rel_option (\<lambda>x y. fst x = fst y \<and> same_content A (snd x) (snd y))
           (run A fuel init1 st) (run A fuel init2 st)"
proof -
  let ?c = "WtoCycle (entry A) body"
  have v: "rel_option (same_content A) (visit A fuel ?c (set_pre st (entry A) v)) (visit A fuel ?c st)"
    for v by (rule cycle_visit_ignores_pre_of_head)
  have it: "rel_option (same_content A) (run_iterator A fuel v st)
      (visit_components A fuel (?c # rest) st)" for v
  proof (cases "visit A fuel ?c st")
    case None
    with v [of v] show ?thesis
      by (cases "visit A fuel ?c (set_pre st (entry A) v)") (simp_all add: run_iterator_def assms)
  next
    case (Some st1)
    with v [of v] obtain st1' where v1: "visit A fuel ?c (set_pre st (entry A) v) = Some st1'"
      and s: "same_content A st1' st1"
      by (cases "visit A fuel ?c (set_pre st (entry A) v)") simp_all
    from same_content_visit(2) [rule_format, OF s] Some v1 show ?thesis
      by (simp add: run_iterator_def assms)
  qed
  have "rel_option (same_content A) (run_iterator A fuel init1 st) (run_iterator A fuel init2 st)"
  proof (cases "visit_components A fuel (?c # rest) st")
    case None
    with it [of init1] it [of init2] show ?thesis
      by (cases "run_iterator A fuel init1 st"; cases "run_iterator A fuel init2 st") simp_all
  next
    case (Some r)
    with it [of init1] it [of init2] show ?thesis
      by (cases "run_iterator A fuel init1 st"; cases "run_iterator A fuel init2 st")
        (simp_all add: same_content_def)
  qed
  then show ?thesis
  proof (cases "run_iterator A fuel init1 st"; cases "run_iterator A fuel init2 st")
    fix r1 r2
    assume r: "run_iterator A fuel init1 st = Some r1" "run_iterator A fuel init2 st = Some r2"
      and "rel_option (same_content A) (run_iterator A fuel init1 st)
        (run_iterator A fuel init2 st)"
    then have "same_content A r1 r2" by simp
    from same_content_process_components [OF this, of "wto A" "[]"] r
    show ?thesis by (simp add: run_def)
  qed (simp_all add: run_def)
qed

text \<open>
  The vertex visit reads the stored pre of the entry: when the entry has no predecessor
  and heads no cycle, the value that \<open>run\<close> stored there is still there at the end.
\<close>

lemma visit_vertex_keeps_entry:
  assumes "predecessors A (entry A) = []"
  shows "pre_val A (visit_vertex A n st) (entry A) = pre_val A st (entry A)"
proof (cases "n = entry A")
  case True
  with assms show ?thesis
    by (simp add: visit_vertex_pre_val vertex_pre_def join_all_def contributions_def)
next
  case False
  then show ?thesis by (simp add: visit_vertex_pre_val)
qed

lemma visit_keeps_entry:
  "\<forall>st'. predecessors A (entry A) = [] \<longrightarrow> entry A \<notin> set (component_heads c) \<longrightarrow>
     visit A fuel c st = Some st' \<longrightarrow> pre_val A st' (entry A) = pre_val A st (entry A)"
  "\<forall>st'. predecessors A (entry A) = [] \<longrightarrow> entry A \<notin> set (components_heads cs) \<longrightarrow>
     visit_components A fuel cs st = Some st' \<longrightarrow>
     pre_val A st' (entry A) = pre_val A st (entry A)"
  "\<forall>st'. predecessors A (entry A) = [] \<longrightarrow> entry A \<notin> set (h # components_heads body) \<longrightarrow>
     iterate A fuel h body kind i pre0 st = Some st' \<longrightarrow>
     pre_val A st' (entry A) = pre_val A st (entry A)"
proof (induction A fuel c st and A fuel cs st and A fuel h body kind i pre0 st
    rule: visit_visit_components_iterate.induct)
  case (1 A fuel node st)
  then show ?case by (auto simp: visit_vertex_keeps_entry)
next
  case (2 A fuel head body st)
  show ?case
  proof (intro allI impI)
    fix st'
    assume "predecessors A (entry A) = []"
      and "entry A \<notin> set (component_heads (WtoCycle head body))"
      and "visit A fuel (WtoCycle head body) st = Some st'"
    with 2 [OF refl]
    have "pre_val A st' (entry A) = pre_val A (snd (initial_pre A head st)) (entry A)"
      by (simp add: Let_def)
    then show "pre_val A st' (entry A) = pre_val A st (entry A)" by simp
  qed
next
  case (3 A fuel st)
  then show ?case by simp
next
  case (4 A fuel c cs st)
  show ?case
  proof (intro allI impI)
    fix st'
    assume p: "predecessors A (entry A) = []"
      and e: "entry A \<notin> set (components_heads (c # cs))"
      and v: "visit_components A fuel (c # cs) st = Some st'"
    from v obtain st1 where v1: "visit A fuel c st = Some st1"
      and v2: "visit_components A fuel cs st1 = Some st'"
      by (auto split: option.splits)
    from 4(1) p e v1 have "pre_val A st1 (entry A) = pre_val A st (entry A)" by simp
    moreover from 4(2) [OF v1] p e v2 have "pre_val A st' (entry A) = pre_val A st1 (entry A)"
      by simp
    ultimately show "pre_val A st' (entry A) = pre_val A st (entry A)" by simp
  qed
next
  case (5 A head body kind iteration pre0 st)
  then show ?case by simp
next
  case (6 A fuel head body kind iteration pre0 st)
  let ?st2 = "set_post (set_pre st head pre0) head (analyze_node A head pre0)"
  show ?case
  proof (intro allI impI)
    fix st'
    assume p: "predecessors A (entry A) = []"
      and e: "entry A \<notin> set (head # components_heads body)"
      and it: "iterate A (Suc fuel) head body kind iteration pre0 st = Some st'"
    from e have ne: "entry A \<noteq> head" and eb: "entry A \<notin> set (components_heads body)"
      by auto
    from it obtain st3 where v: "visit_components A fuel body ?st2 = Some st3"
      by (auto simp: Let_def split: option.splits)
    let ?r = "compute_new_pre A head st3"
    from 6(1) [OF refl refl] p eb v ne
    have k3: "pre_val A (snd ?r) (entry A) = pre_val A st (entry A)" by simp
    show "pre_val A st' (entry A) = pre_val A st (entry A)"
    proof (cases "end_of_pass A head kind iteration pre0 (fst ?r)")
      case (Break w)
      with it v have "st' = set_pre (snd ?r) head w" by (simp add: Let_def)
      with k3 ne show ?thesis by simp
    next
      case (Continue kind' i' pre')
      with it v have "iterate A fuel head body kind' (i' + 1) pre' (snd ?r) = Some st'"
        by (simp add: Let_def)
      with 6(2) [OF refl refl v refl Continue] p e k3 show ?thesis by simp
    qed
  qed
qed

lemma run_keeps_init_at_vertex_entry:
  assumes "predecessors A (entry A) = []"
    and "entry A \<notin> set (components_heads (wto A))"
    and "run A fuel init st = Some (calls, r)"
  shows "pre_val A r (entry A) = init"
proof -
  from run_SomeD [OF assms(3)] obtain d where d: "run_iterator A fuel init st = Some d"
    and s: "same_content A r d" by blast
  from visit_keeps_entry(2) assms(1,2) d
  have "pre_val A d (entry A) = pre_val A (set_pre st (entry A) init) (entry A)"
    unfolding run_iterator_def by blast
  with s show ?thesis by (simp add: same_content_def)
qed

text \<open>
  C2. \<open>run(init)\<close> stores \<open>init\<close> as the pre of the entry, and the vertex visit starts from
  it: in the guarded loop, whose entry is a vertex without predecessors, the pre of the
  entry stays \<open>init = 1\<close>. The cycle visit starts from bottom instead. On the graph whose
  entry heads a cycle, \<open>run(5)\<close> leaves bottom as the pre of the entry, although \<open>refine\<close>
  changes nothing there, and \<open>run(7)\<close> makes the same calls to the sinks as \<open>run(5)\<close>.
\<close>

theorem entry_cycle_discards_init:
  "map_option (\<lambda>r. pre_val entry_loop (snd r) 0) (run entry_loop 1 5 new_tables) = Some 0 \<and>
   map_option fst (run entry_loop 1 5 new_tables) =
     Some [ProcessPre 0 0, ProcessPost 0 0, ProcessPre 1 0, ProcessPost 1 0] \<and>
   map_option fst (run entry_loop 1 7 new_tables) = map_option fst (run entry_loop 1 5 new_tables) \<and>
   refine entry_loop 0 1 5 5 = 5 \<and>
   map_option (\<lambda>r. pre_val guarded_loop (snd r) 0) (run guarded_loop 4 1 new_tables) = Some 1"
  by code_simp

subsection \<open>More fuel\<close>



subsection \<open>Monotonicity in the initial value\<close>

lemma foldl_mono:
  assumes "mono_binary le f"
  shows "le a a' \<Longrightarrow> list_all2 le xs ys \<Longrightarrow> le (foldl f a xs) (foldl f a' ys)"
proof (induction xs arbitrary: a a' ys)
  case Nil
  then show ?case by simp
next
  case (Cons x xs)
  from Cons.prems(2) obtain y ys' where ys: "ys = y # ys'" and xy: "le x y"
    and rest: "list_all2 le xs ys'"
    by (cases ys) auto
  from assms Cons.prems(1) xy have "le (f a x) (f a' y)"
    by (simp add: mono_binary_def)
  with Cons.IH rest ys show ?case by simp
qed

lemma contributions_mono:
  assumes "monotone_client A" and "\<forall>p. leq A (f p) (g p)"
  shows "list_all2 (leq A) (contributions A keep n f) (contributions A keep n g)"
  using assms by (simp add: contributions_def list_all2_map1 list_all2_map2 monotone_client_def
      list_all2_same)

lemma join_all_mono:
  assumes "monotone_client A" and "leq A a a'" and "\<forall>p. leq A (f p) (g p)"
  shows "leq A (join_all A a (contributions A keep n f)) (join_all A a' (contributions A keep n g))"
  unfolding join_all_def
  using assms by (intro foldl_mono [where le = "leq A"] contributions_mono)
    (simp_all add: monotone_client_def)

lemma tables_leq_visit_vertex:
  assumes m: "monotone_client A" and t: "tables_leq A st1 st2"
  shows "tables_leq A (visit_vertex A n st1) (visit_vertex A n st2)"
proof -
  from m t have s: "leq A (if n = entry A then pre_val A st1 n else bottom A)
      (if n = entry A then pre_val A st2 n else bottom A)"
    by (simp add: monotone_client_def tables_leq_def)
  from t have "\<forall>p. leq A (post_val A st1 p) (post_val A st2 p)"
    by (simp add: tables_leq_def)
  with m s have v: "leq A (vertex_pre A n st1) (vertex_pre A n st2)"
    unfolding vertex_pre_def by (intro join_all_mono)
  with m have "leq A (analyze_node A n (vertex_pre A n st1)) (analyze_node A n (vertex_pre A n st2))"
    by (simp add: monotone_client_def)
  with v t show ?thesis
    by (simp add: tables_leq_def visit_vertex_pre_val visit_vertex_post_val)
qed

lemma tables_leq_initial_pre:
  assumes m: "monotone_client A" and t: "tables_leq A st1 st2"
  shows "leq A (fst (initial_pre A h st1)) (fst (initial_pre A h st2))"
    and "tables_leq A (snd (initial_pre A h st1)) (snd (initial_pre A h st2))"
proof -
  from t have p: "\<forall>p. leq A (post_val A st1 p) (post_val A st2 p)"
    by (simp add: tables_leq_def)
  from m have "leq A (bottom A) (bottom A)" by (simp add: monotone_client_def)
  with m p show "leq A (fst (initial_pre A h st1)) (fst (initial_pre A h st2))"
    unfolding initial_pre_value by (intro join_all_mono)
  from t show "tables_leq A (snd (initial_pre A h st1)) (snd (initial_pre A h st2))"
    by (simp add: tables_leq_def)
qed

lemma tables_leq_compute_new_pre:
  assumes m: "monotone_client A" and t: "tables_leq A st1 st2"
  shows "leq A (fst (compute_new_pre A h st1)) (fst (compute_new_pre A h st2))"
    and "tables_leq A (snd (compute_new_pre A h st1)) (snd (compute_new_pre A h st2))"
proof -
  from t have p: "\<forall>p. leq A (post_val A st1 p) (post_val A st2 p)"
    by (simp add: tables_leq_def)
  from m have b: "leq A (bottom A) (bottom A)" by (simp add: monotone_client_def)
  have "leq A (join_all A (bottom A) (contributions A keep h (post_val A st1)))
      (join_all A (bottom A) (contributions A keep h (post_val A st2)))" for keep
    using m b p by (rule join_all_mono)
  with m show "leq A (fst (compute_new_pre A h st1)) (fst (compute_new_pre A h st2))"
    by (simp add: compute_new_pre_value monotone_client_def mono_binary_def)
  from t show "tables_leq A (snd (compute_new_pre A h st1)) (snd (compute_new_pre A h st2))"
    by (simp add: tables_leq_def)
qed

lemma tables_leq_set_head:
  assumes "monotone_client A" and "tables_leq A st1 st2" and "leq A p1 p2"
  shows "tables_leq A (set_post (set_pre st1 h p1) h (analyze_node A h p1))
           (set_post (set_pre st2 h p2) h (analyze_node A h p2))"
  using assms by (simp add: tables_leq_def monotone_client_def)

lemma map_option_snd_apfst: "map_option snd (map_option (apfst f) x) = map_option snd x"
  by (cases x) auto

lemma visit_passes_tables:
  "map_option snd (visit_passes A fuel c st) = visit A fuel c st"
  "map_option snd (visit_components_passes A fuel cs st) = visit_components A fuel cs st"
  "map_option snd (iterate_passes A fuel h body kind i pre0 st) = iterate A fuel h body kind i pre0 st"
proof (induction A fuel c st and A fuel cs st and A fuel h body kind i pre0 st
    rule: visit_passes_visit_components_passes_iterate_passes.induct)
  case (1 A fuel node st)
  then show ?case by simp
next
  case (2 A fuel head body st)
  from 2 [OF refl] show ?case
    by (simp add: Let_def map_option_snd_apfst)
next
  case (3 A fuel st)
  then show ?case by simp
next
  case (4 A fuel c cs st)
  show ?case
  proof (cases "visit_passes A fuel c st")
    case None
    with 4(1) show ?thesis by simp
  next
    case (Some x)
    from 4(1) Some have v: "visit A fuel c st = Some (snd x)" by simp
    from 4(2) [OF Some] Some v show ?thesis
      by (simp add: map_option_snd_apfst)
  qed
next
  case (5 A head body kind iteration pre0 st)
  then show ?case by simp
next
  case (6 A fuel head body kind iteration pre0 st)
  let ?st2 = "set_post (set_pre st head pre0) head (analyze_node A head pre0)"
  show ?case
  proof (cases "visit_components_passes A fuel body ?st2")
    case None
    with 6(1) [OF refl refl] show ?thesis by (simp add: Let_def)
  next
    case (Some x)
    from 6(1) [OF refl refl] Some have v: "visit_components A fuel body ?st2 = Some (snd x)"
      by simp
    let ?r = "compute_new_pre A head (snd x)"
    show ?thesis
    proof (cases "end_of_pass A head kind iteration pre0 (fst ?r)")
      case (Break w)
      with Some v show ?thesis by (simp add: Let_def)
    next
      case (Continue kind' i' pre')
      from 6(2) [OF refl refl Some refl Continue] Some v Continue show ?thesis
        by (simp add: Let_def map_option_snd_apfst)
    qed
  qed
qed

lemma end_of_pass_same_shape:
  assumes m: "monotone_client A" and p: "leq A p1 p2" and n: "leq A n1 n2"
    and s: "shape (end_of_pass A h kind i p1 n1) = shape (end_of_pass A h kind i p2 n2)"
  shows "rel_pass_end (leq A) (end_of_pass A h kind i p1 n1) (end_of_pass A h kind i p2 n2)"
proof -
  from m p n have ex: "leq A (extrapolate A h i p1 n1) (extrapolate A h i p2 n2)"
    by (simp add: monotone_client_def mono_binary_def)
  from m p n have re: "leq A (refine A h j p1 n1) (refine A h j p2 n2)" for j
    by (simp add: monotone_client_def mono_binary_def)
  show ?thesis
  proof (cases kind)
    case Increasing
    show ?thesis
    proof (cases "is_increasing_iterations_fixpoint A p1 n1")
      case r1: True
      show ?thesis
      proof (cases "is_increasing_iterations_fixpoint A p2 n2")
        case True
        with r1 Increasing s re [of 1] show ?thesis
          by (simp add: end_of_pass_reached end_of_pass_decreasing split: if_splits)
      next
        case False
        with r1 Increasing s show ?thesis
          by (simp add: end_of_pass_reached end_of_pass_not_reached end_of_pass_decreasing
              split: if_splits)
      qed
    next
      case r1: False
      show ?thesis
      proof (cases "is_increasing_iterations_fixpoint A p2 n2")
        case True
        with r1 Increasing s show ?thesis
          by (simp add: end_of_pass_reached end_of_pass_not_reached end_of_pass_decreasing
              split: if_splits)
      next
        case False
        with r1 Increasing ex show ?thesis
          by (simp add: end_of_pass_not_reached)
      qed
    qed
  next
    case Decreasing
    with s re [of i] show ?thesis
      by (simp add: end_of_pass_decreasing split: if_splits)
  qed
qed

lemma visit_passes_lockstep:
  "\<forall>st2 fuel2 l r1 r2. monotone_client A \<longrightarrow> tables_leq A st st2 \<longrightarrow>
     visit_passes A fuel c st = Some (l, r1) \<longrightarrow> visit_passes A fuel2 c st2 = Some (l, r2) \<longrightarrow>
     tables_leq A r1 r2"
  "\<forall>st2 fuel2 l r1 r2. monotone_client A \<longrightarrow> tables_leq A st st2 \<longrightarrow>
     visit_components_passes A fuel cs st = Some (l, r1) \<longrightarrow>
     visit_components_passes A fuel2 cs st2 = Some (l, r2) \<longrightarrow>
     tables_leq A r1 r2"
  "\<forall>st2 fuel2 p2 l r1 r2. monotone_client A \<longrightarrow> tables_leq A st st2 \<longrightarrow> leq A pre0 p2 \<longrightarrow>
     iterate_passes A fuel h body kind i pre0 st = Some (l, r1) \<longrightarrow>
     iterate_passes A fuel2 h body kind i p2 st2 = Some (l, r2) \<longrightarrow>
     tables_leq A r1 r2"
proof (induction A fuel c st and A fuel cs st and A fuel h body kind i pre0 st
    rule: visit_passes_visit_components_passes_iterate_passes.induct)
  case (1 A fuel node st)
  then show ?case by (auto simp: tables_leq_visit_vertex)
next
  case (2 A fuel head body st)
  show ?case
  proof (intro allI impI)
    fix st2 fuel2 l r1 r2
    assume m: "monotone_client A" and t: "tables_leq A st st2"
      and v1: "visit_passes A fuel (WtoCycle head body) st = Some (l, r1)"
      and v2: "visit_passes A fuel2 (WtoCycle head body) st2 = Some (l, r2)"
    note i = tables_leq_initial_pre [OF m t, of head]
    let ?a = "initial_pre A head st" and ?b = "initial_pre A head st2"
    from v1 obtain ps where l: "l = Passes ps"
      and i1: "iterate_passes A fuel head body Increasing 1 (fst ?a) (snd ?a) = Some (ps, r1)"
      by (auto simp: Let_def)
    from v2 l have i2: "iterate_passes A fuel2 head body Increasing 1 (fst ?b) (snd ?b) = Some (ps, r2)"
      by (auto simp: Let_def)
    from 2 [OF refl] m i i1 i2 show "tables_leq A r1 r2" by blast
  qed
next
  case (3 A fuel st)
  then show ?case by simp
next
  case (4 A fuel c cs st)
  show ?case
  proof (intro allI impI)
    fix st2 fuel2 l r1 r2
    assume m: "monotone_client A" and t: "tables_leq A st st2"
      and v1: "visit_components_passes A fuel (c # cs) st = Some (l, r1)"
      and v2: "visit_components_passes A fuel2 (c # cs) st2 = Some (l, r2)"
    from v1 obtain p ps s1 where l: "l = p # ps"
      and a1: "visit_passes A fuel c st = Some (p, s1)"
      and b1: "visit_components_passes A fuel cs s1 = Some (ps, r1)"
      by (auto split: option.splits)
    from v2 l obtain s2 where a2: "visit_passes A fuel2 c st2 = Some (p, s2)"
      and b2: "visit_components_passes A fuel2 cs s2 = Some (ps, r2)"
      by (auto split: option.splits)
    from 4(1) m t a1 a2 have "tables_leq A s1 s2" by blast
    with 4(2) [OF a1] m b1 b2 show "tables_leq A r1 r2" by simp
  qed
next
  case (5 A head body kind iteration pre0 st)
  then show ?case by simp
next
  case (6 A fuel head body kind iteration pre0 st)
  show ?case
  proof (intro allI impI)
    fix st2 fuel2 p2 l r1 r2
    assume m: "monotone_client A" and t: "tables_leq A st st2" and p: "leq A pre0 p2"
      and v1: "iterate_passes A (Suc fuel) head body kind iteration pre0 st = Some (l, r1)"
      and v2: "iterate_passes A fuel2 head body kind iteration p2 st2 = Some (l, r2)"
    from v2 obtain f2 where f2: "fuel2 = Suc f2" by (cases fuel2) auto
    let ?g1 = "set_post (set_pre st head pre0) head (analyze_node A head pre0)"
    let ?g2 = "set_post (set_pre st2 head p2) head (analyze_node A head p2)"
    from m t p have tg: "tables_leq A ?g1 ?g2" by (rule tables_leq_set_head)
    from v1 obtain inner st3 where b1: "visit_components_passes A fuel body ?g1 = Some (inner, st3)"
      by (cases "visit_components_passes A fuel body ?g1") (auto simp: Let_def)
    from v2 f2 obtain inner2 st3' where
      b2: "visit_components_passes A f2 body ?g2 = Some (inner2, st3')"
      by (cases "visit_components_passes A f2 body ?g2") (auto simp: Let_def)
    let ?e1 = "end_of_pass A head kind iteration pre0 (fst (compute_new_pre A head st3))"
    let ?e2 = "end_of_pass A head kind iteration p2 (fst (compute_new_pre A head st3'))"
    from v1 b1 obtain rest1 where l1: "l = (inner, shape ?e1) # rest1"
      by (cases ?e1) (auto simp: Let_def)
    from v2 f2 b2 obtain rest2 where l2: "l = (inner2, shape ?e2) # rest2"
      by (cases ?e2) (auto simp: Let_def)
    from l1 l2 have ii: "inner2 = inner" and sh: "shape ?e1 = shape ?e2" by simp_all
    from 6(1) [OF refl refl] m tg b1 b2 [unfolded ii] have t3: "tables_leq A st3 st3'" by blast
    note c = tables_leq_compute_new_pre [OF m t3, of head]
    from m p c(1) sh have e: "rel_pass_end (leq A) ?e1 ?e2" by (rule end_of_pass_same_shape)
    show "tables_leq A r1 r2"
    proof (cases ?e1)
      case (Break v)
      with e obtain w where bk: "?e2 = Break w" and vw: "leq A v w"
        by (cases ?e2) simp_all
      from c(2) vw
      have "tables_leq A (set_pre (snd (compute_new_pre A head st3)) head v)
          (set_pre (snd (compute_new_pre A head st3')) head w)"
        by (simp add: tables_leq_def)
      moreover from v1 b1 Break have "r1 = set_pre (snd (compute_new_pre A head st3)) head v"
        by (simp add: Let_def)
      moreover from v2 f2 b2 bk have "r2 = set_pre (snd (compute_new_pre A head st3')) head w"
        by (simp add: Let_def)
      ultimately show ?thesis by simp
    next
      case (Continue kind' i' pre')
      with e obtain p' where c2: "?e2 = Continue kind' i' p'" and pp: "leq A pre' p'"
        by (cases ?e2) simp_all
      from v1 b1 Continue obtain ps where lps: "l = (inner, Goes kind') # ps"
        and n1: "iterate_passes A fuel head body kind' (i' + 1) pre'
            (snd (compute_new_pre A head st3)) = Some (ps, r1)"
        by (auto simp: Let_def)
      from v2 f2 b2 c2 lps have n2: "iterate_passes A f2 head body kind' (i' + 1) p'
            (snd (compute_new_pre A head st3')) = Some (ps, r2)"
        by (auto simp: Let_def)
      from 6(2) [OF refl refl b1 refl] Continue m c(2) pp n1 n2
      show ?thesis by simp
    qed
  qed
qed

lemma widening_loop_fields:
  "wto widening_loop = [WtoVertex 0, WtoCycle 1 [WtoVertex 2]]"
  "bottom widening_loop = 0"
  "leq widening_loop = (\<le>)"
  "join_with widening_loop = max"
  "join_loop_with widening_loop = max"
  "analyze_node widening_loop = (\<lambda>n x. if n = 2 then min (x + 1) 3 else x)"
  "analyze_edge widening_loop = (\<lambda>p n x. x)"
  "extrapolate widening_loop = (\<lambda>h i a b. if i \<le> 1 then max a b else 100)"
  "refine widening_loop = (\<lambda>h i a b. a)"
  by (simp_all add: widening_loop_def widening_loop_base_def default_hooks_def
      default_extrapolate_def default_refine_def fun_eq_iff)

lemma monotone_client_widening_loop: "monotone_client widening_loop"
  by (auto simp: monotone_client_def mono_binary_def widening_loop_fields)

text \<open>
  C8 as stated fails. In the widening loop every callback is monotone. From \<open>init = 1\<close>
  the loop needs a second increasing pass, widens to \<open>100\<close> and keeps it; from \<open>init = 3\<close>
  the first pass is stable and the pre of the head stays \<open>3\<close>.
\<close>

theorem run_not_monotone_counterexample:
  "monotone_client widening_loop \<and>
   leq widening_loop 1 3 \<and>
   map_option (\<lambda>r. pre_val widening_loop (snd r) 1) (run widening_loop 3 1 new_tables) = Some 100 \<and>
   map_option (\<lambda>r. pre_val widening_loop (snd r) 1) (run widening_loop 3 3 new_tables) = Some 3 \<and>
   \<not> leq widening_loop 100 3"
proof -
  have "leq widening_loop 1 3 \<and>
   map_option (\<lambda>r. pre_val widening_loop (snd r) 1) (run widening_loop 3 1 new_tables) = Some 100 \<and>
   map_option (\<lambda>r. pre_val widening_loop (snd r) 1) (run widening_loop 3 3 new_tables) = Some 3 \<and>
   \<not> leq widening_loop 100 3"
    by code_simp
  with monotone_client_widening_loop show ?thesis by blast
qed


text \<open>
  C8, as amended. Let the client be monotone (the two transfer functions, the joins and
  the hooks \<open>extrapolate\<close> and \<open>refine\<close>), let \<open>init1 \<sqsubseteq> init2\<close>, let the tables the two
  runs start from be related, and let both runs return. If the two runs make the same
  passes, that is, if at every visit of every cycle their loops end each pass the same way
  (same number of increasing and of decreasing passes), then \<open>pre1(n) \<sqsubseteq> pre2(n)\<close> and
  \<open>post1(n) \<sqsubseteq> post2(n)\<close> for every node \<open>n\<close>. The fixpoint tests are arbitrary, those of
  the class included, and so is the number of passes.
\<close>

theorem run_monotone_on_same_passes:
  assumes "monotone_client A"
    and "leq A init1 init2"
    and "tables_leq A st1 st2"
    and "run A fuel1 init1 st1 = Some (calls1, r1)"
    and "run A fuel2 init2 st2 = Some (calls2, r2)"
    and "run_passes A fuel1 init1 st1 = run_passes A fuel2 init2 st2"
  shows "\<forall>n. leq A (pre_val A r1 n) (pre_val A r2 n) \<and> leq A (post_val A r1 n) (post_val A r2 n)"
proof -
  from run_SomeD [OF assms(4)] obtain d1 where d1: "run_iterator A fuel1 init1 st1 = Some d1"
    and r1: "same_content A r1 d1" by blast
  from run_SomeD [OF assms(5)] obtain d2 where d2: "run_iterator A fuel2 init2 st2 = Some d2"
    and r2: "same_content A r2 d2" by blast
  let ?s1 = "set_pre st1 (entry A) init1" and ?s2 = "set_pre st2 (entry A) init2"
  from d1 visit_passes_tables(2) [of A fuel1 "wto A" ?s1]
  obtain l1 where p1: "visit_components_passes A fuel1 (wto A) ?s1 = Some (l1, d1)"
    unfolding run_iterator_def by (cases "visit_components_passes A fuel1 (wto A) ?s1") auto
  from d2 visit_passes_tables(2) [of A fuel2 "wto A" ?s2]
  obtain l2 where p2: "visit_components_passes A fuel2 (wto A) ?s2 = Some (l2, d2)"
    unfolding run_iterator_def by (cases "visit_components_passes A fuel2 (wto A) ?s2") auto
  from assms(6) p1 p2 have "l2 = l1" by (simp add: run_passes_def)
  with p2 have p2': "visit_components_passes A fuel2 (wto A) ?s2 = Some (l1, d2)" by simp
  from assms(2,3) have "tables_leq A ?s1 ?s2" by (simp add: tables_leq_def)
  with visit_passes_lockstep(2) assms(1) p1 p2' have "tables_leq A d1 d2" by blast
  with r1 r2 show ?thesis by (simp add: tables_leq_def same_content_def)
qed

text \<open>
  The widening loop of the counterexample, from \<open>init = 0\<close> and from \<open>init = 1\<close>: both runs make
  two increasing passes, the second of which widens, and stop on the third pass.
\<close>

theorem run_monotone_on_same_passes_witness:
  "monotone_client widening_loop \<and>
   leq widening_loop 0 1 \<and>
   tables_leq widening_loop new_tables new_tables \<and>
   run_passes widening_loop 3 0 new_tables =
     Some [NoPass, Passes [([NoPass], Goes Increasing), ([NoPass], Goes Increasing),
                           ([NoPass], Stops)]] \<and>
   run_passes widening_loop 3 1 new_tables = run_passes widening_loop 3 0 new_tables \<and>
   (\<exists>calls1 r1 calls2 r2.
      run widening_loop 3 0 new_tables = Some (calls1, r1) \<and>
      run widening_loop 3 1 new_tables = Some (calls2, r2) \<and>
      (\<forall>n. leq widening_loop (pre_val widening_loop r1 n) (pre_val widening_loop r2 n) \<and>
           leq widening_loop (post_val widening_loop r1 n) (post_val widening_loop r2 n)))"
proof -
  note m = monotone_client_widening_loop
  have l: "leq widening_loop 0 1"
    by code_simp
  have t: "tables_leq widening_loop new_tables new_tables"
    by (simp add: tables_leq_def pre_val_def post_val_def content_def new_tables_def
        widening_loop_fields)
  have p0: "run_passes widening_loop 3 0 new_tables =
     Some [NoPass, Passes [([NoPass], Goes Increasing), ([NoPass], Goes Increasing),
                           ([NoPass], Stops)]]"
    by code_simp
  have p1: "run_passes widening_loop 3 1 new_tables = run_passes widening_loop 3 0 new_tables"
    by code_simp
  have "tables_at widening_loop [0, 1, 2] (map_option snd (run widening_loop 3 0 new_tables)) =
      Some [(0, 0), (100, 100), (100, 3)]"
    by code_simp
  then obtain calls1 r1 where r1: "run widening_loop 3 0 new_tables = Some (calls1, r1)"
    by (cases "run widening_loop 3 0 (new_tables :: (nat, nat) tables)")
      (auto simp: tables_at_def)
  have "tables_at widening_loop [0, 1, 2] (map_option snd (run widening_loop 3 1 new_tables)) =
      Some [(1, 1), (100, 100), (100, 3)]"
    by code_simp
  then obtain calls2 r2 where r2: "run widening_loop 3 1 new_tables = Some (calls2, r2)"
    by (cases "run widening_loop 3 1 (new_tables :: (nat, nat) tables)")
      (auto simp: tables_at_def)
  from run_monotone_on_same_passes [OF m l t r1 r2 p1 [symmetric]] m l t p0 p1 r1 r2
  show ?thesis by blast
qed

subsection \<open>Termination\<close>




subsection \<open>Visits on a valid order are monotone\<close>






lemma posts_leq_subset: "posts_leq A ns st1 st2 \<Longrightarrow> set ms \<subseteq> set ns \<Longrightarrow> posts_leq A ms st1 st2"
  by (auto simp: posts_leq_def)

lemma posts_leq_unchanged:
  assumes "posts_leq A ns st1 st2" and "unchanged_outside A ms st1 r1"
    and "unchanged_outside A ms st2 r2" and "set ns \<inter> set ms = {}"
  shows "posts_leq A ns r1 r2"
  unfolding posts_leq_def
proof
  fix n
  assume n: "n \<in> set ns"
  with assms(4) have "n \<notin> set ms" by auto
  with assms(2,3) have "post_val A r1 n = post_val A st1 n" "post_val A r2 n = post_val A st2 n"
    by (simp_all add: unchanged_outside_def)
  with assms(1) n show "leq A (post_val A r1 n) (post_val A r2 n)"
    by (simp add: posts_leq_def)
qed





lemma post_val_head_set [simp]:
  "post_val A (head_set A h p st) = (post_val A st)(h := analyze_node A h p)"
  by (simp add: head_set_def)
















subsection \<open>Termination when the widening is the identity\<close>









subsection \<open>One pass of the loop examples\<close>




subsection \<open>A loop on reused tables whose narrowing never stops\<close>










subsection \<open>A loop that needs as many passes as one likes\<close>













end
